theory Spec2Isabelle
  imports Main
begin

section \<open>Characters and the Unicode classes used by the source\<close>

text \<open>
  A Python \<open>str\<close> is a sequence of code points. The model uses \<^typ>\<open>string\<close>, whose
  characters are the 256 values of \<^typ>\<open>char\<close>, read as the code points U+0000 to U+00FF.
  On that range the classes below are the ones CPython uses for \<open>str\<close> patterns and
  \<open>str\<close> methods: \<open>str.isspace\<close> (it decides \<open>\s\<close>, \<open>strip()\<close> and \<open>split()\<close>),
  \<open>str.isdecimal\<close> (\<open>\d\<close>), \<open>str.isalnum\<close> or underscore (\<open>\w\<close>) and \<open>str.lower\<close>.
\<close>

definition code :: "char \<Rightarrow> nat" where
  "code c = of_char c"

definition between :: "nat \<Rightarrow> nat \<Rightarrow> char \<Rightarrow> bool" where
  "between lo hi c = (lo \<le> code c \<and> code c \<le> hi)"

definition isspace :: "char \<Rightarrow> bool" where
  "isspace c = (between 9 13 c \<or> between 28 32 c \<or> code c = 133 \<or> code c = 160)"

definition isdecimal :: "char \<Rightarrow> bool" where
  "isdecimal c = between 48 57 c"

definition isalnum :: "char \<Rightarrow> bool" where
  "isalnum c = (between 48 57 c \<or> between 65 90 c \<or> between 97 122 c \<or>
     code c = 170 \<or> between 178 179 c \<or> code c = 181 \<or> between 185 186 c \<or>
     between 188 190 c \<or> between 192 214 c \<or> between 216 246 c \<or> between 248 255 c)"

definition lower_char :: "char \<Rightarrow> char" where
  "lower_char c = (if between 65 90 c \<or> between 192 214 c \<or> between 216 222 c
     then char_of (code c + 32) else c)"

definition lower :: "string \<Rightarrow> string" where
  "lower s = map lower_char s"

text \<open>
  \<open>str.upper\<close> is applied by the source to the opcode only, after the opcode was found
  among the keys of the signature table; the keys are ASCII lower-case words, on which
  \<open>str.upper\<close> is the ASCII mapping below.
\<close>

definition upper_char :: "char \<Rightarrow> char" where
  "upper_char c = (if between 97 122 c then char_of (code c - 32) else c)"

definition upper :: "string \<Rightarrow> string" where
  "upper s = map upper_char s"

abbreviation newline :: char where
  "newline \<equiv> CHR 0x0A"

abbreviation backslash :: char where
  "backslash \<equiv> CHR 0x5C"

section \<open>Regular expressions of the \<open>re\<close> module\<close>

text \<open>
  The patterns of the source are kept as syntax trees. A class item is a literal, a range
  \<open>a-z\<close>, one of \<open>\d\<close>, \<open>\w\<close>, \<open>\s\<close>, or a literal compiled under \<open>re.IGNORECASE\<close>.
\<close>

datatype item = Ch char | Rng char char | Digit | Word | Space | ChI char

datatype rx = Nul | Eps | Set "item list" | NSet "item list"
  | Seq rx rx | Alt rx rx | Star rx

fun item_match :: "item \<Rightarrow> char \<Rightarrow> bool" where
  "item_match (Ch x) c = (c = x)"
| "item_match (Rng a b) c = between (code a) (code b) c"
| "item_match Digit c = isdecimal c"
| "item_match Word c = (isalnum c \<or> c = CHR ''_'')"
| "item_match Space c = isspace c"
| "item_match (ChI x) c = (lower_char c = lower_char x)"

definition in_class :: "item list \<Rightarrow> char \<Rightarrow> bool" where
  "in_class items c = list_ex (\<lambda>i. item_match i c) items"

fun nullable :: "rx \<Rightarrow> bool" where
  "nullable Nul = False"
| "nullable Eps = True"
| "nullable (Set items) = False"
| "nullable (NSet items) = False"
| "nullable (Seq r s) = (nullable r \<and> nullable s)"
| "nullable (Alt r s) = (nullable r \<or> nullable s)"
| "nullable (Star r) = True"

fun deriv :: "char \<Rightarrow> rx \<Rightarrow> rx" where
  "deriv c Nul = Nul"
| "deriv c Eps = Nul"
| "deriv c (Set items) = (if in_class items c then Eps else Nul)"
| "deriv c (NSet items) = (if in_class items c then Nul else Eps)"
| "deriv c (Seq r s) =
     (if nullable r then Alt (Seq (deriv c r) s) (deriv c s) else Seq (deriv c r) s)"
| "deriv c (Alt r s) = Alt (deriv c r) (deriv c s)"
| "deriv c (Star r) = Seq (deriv c r) (Star r)"

fun derivs :: "string \<Rightarrow> rx \<Rightarrow> rx" where
  "derivs [] r = r"
| "derivs (c # cs) r = derivs cs (deriv c r)"

definition fullmatch :: "rx \<Rightarrow> string \<Rightarrow> bool" where
  "fullmatch r s = nullable (derivs s r)"

text \<open>
  \<open>re.match\<close> on a pattern \<open>^r$\<close> without \<open>re.MULTILINE\<close>: \<open>^\<close> holds at the start, and
  \<open>$\<close> holds at the end of the string and also just before a newline that is the last
  character. The result is only tested for truth, so it is whether some match exists.
\<close>

definition re_match :: "rx \<Rightarrow> string \<Rightarrow> bool" where
  "re_match r s = (fullmatch r s \<or> (s \<noteq> [] \<and> last s = newline \<and> fullmatch r (butlast s)))"

definition Opt :: "rx \<Rightarrow> rx" where
  "Opt r = Alt r Eps"

definition Plus :: "rx \<Rightarrow> rx" where
  "Plus r = Seq r (Star r)"

fun Lit :: "string \<Rightarrow> rx" where
  "Lit [] = Eps"
| "Lit (c # cs) = Seq (Set [Ch c]) (Lit cs)"

fun LitI :: "string \<Rightarrow> rx" where
  "LitI [] = Eps"
| "LitI (c # cs) = Seq (Set [ChI c]) (LitI cs)"

section \<open>Lexical classifiers\<close>

definition symbols :: "item list" where
  "symbols = [Ch CHR ''-'', Ch CHR ''$'', Ch CHR ''&'', Ch CHR ''%'', Ch CHR ''*'',
     Ch CHR ''!'', Ch CHR ''?'']"

text \<open>\<open>[a-zA-Z_\-$&%*!?][\w\-$&%*!?]*\<close>\<close>

definition ident_rx :: rx where
  "ident_rx = Seq (Set ([Rng CHR ''a'' CHR ''z'', Rng CHR ''A'' CHR ''Z'', Ch CHR ''_''] @ symbols))
     (Star (Set (Word # symbols)))"

text \<open>\<open>-?\d+\<close>, \<open>-?0x[0-9a-fA-F]+\<close>, \<open>-?0o[0-7]+\<close> and \<open>\+?\d+\<close>\<close>

definition int_dec_rx :: rx where
  "int_dec_rx = Seq (Opt (Lit ''-'')) (Plus (Set [Digit]))"

definition int_hex_rx :: rx where
  "int_hex_rx = Seq (Opt (Lit ''-'')) (Seq (Lit ''0x'')
     (Plus (Set [Rng CHR ''0'' CHR ''9'', Rng CHR ''a'' CHR ''f'', Rng CHR ''A'' CHR ''F''])))"

definition int_oct_rx :: rx where
  "int_oct_rx = Seq (Opt (Lit ''-'')) (Seq (Lit ''0o'') (Plus (Set [Rng CHR ''0'' CHR ''7''])))"

definition int_plus_rx :: rx where
  "int_plus_rx = Seq (Opt (Lit ''+'')) (Plus (Set [Digit]))"

text \<open>\<open>([^\\\s]|(\\[0-9]{3}))*\<close>\<close>

definition escape_rx :: rx where
  "escape_rx = Seq (Set [Ch backslash]) (Seq (Set [Rng CHR ''0'' CHR ''9''])
     (Seq (Set [Rng CHR ''0'' CHR ''9'']) (Set [Rng CHR ''0'' CHR ''9''])))"

definition string_rx :: rx where
  "string_rx = Star (Alt (NSet [Ch backslash, Space]) escape_rx)"

text \<open>\<open>(int|bool|string|nil)\<close>\<close>

definition type_rx :: rx where
  "type_rx = Alt (Lit ''int'') (Alt (Lit ''bool'') (Alt (Lit ''string'') (Lit ''nil'')))"

text \<open>\<open>\s*\.IPPcode24\s*\<close> under \<open>re.IGNORECASE\<close>\<close>

definition header_rx :: rx where
  "header_rx = Seq (Star (Set [Space])) (Seq (LitI ''.IPPcode24'') (Star (Set [Space])))"

definition is_header :: "string \<Rightarrow> bool" where
  "is_header line = re_match header_rx line"

text \<open>\<open>s.split("@", 1)\<close> for a string that contains \<open>@\<close>: the parts around the first one.\<close>

definition split_at :: "string \<Rightarrow> string \<times> string" where
  "split_at s = (takeWhile (\<lambda>c. c \<noteq> CHR ''@'') s, tl (dropWhile (\<lambda>c. c \<noteq> CHR ''@'') s))"

definition is_type :: "string \<Rightarrow> bool" where
  "is_type tyname = re_match type_rx tyname"

definition is_label :: "string \<Rightarrow> bool" where
  "is_label label = re_match ident_rx label"

definition is_var :: "string \<Rightarrow> bool" where
  "is_var var =
     (if CHR ''@'' \<notin> set var then False
      else let (frame, name) = split_at var in
        if frame \<notin> set [''GF'', ''TF'', ''LF''] then False
        else re_match ident_rx name)"

definition is_symb :: "string \<Rightarrow> bool" where
  "is_symb symb =
     (if CHR ''@'' \<notin> set symb then False
      else let (tyname, val) = split_at symb in
        if \<not> is_type tyname then False
        else if tyname = ''nil'' then val = ''nil''
        else if tyname = ''int'' then
          re_match int_dec_rx val \<or> re_match int_hex_rx val \<or>
          re_match int_oct_rx val \<or> re_match int_plus_rx val
        else if tyname = ''bool'' then val \<in> set [''true'', ''false'']
        else if tyname = ''string'' then re_match string_rx val
        else False)"

section \<open>Operand resolver\<close>

text \<open>
  Every failure of the source prints a message and ends the process: \<open>sys.exit(21)\<close> for
  the header, \<open>sys.exit(23)\<close> everywhere else. The exit sites are told apart by the names
  the specification gives them: \<open>Missing or incorrect header\<close> is \<open>MissingHeader\<close>,
  \<open>Missing instruction\<close> and \<open>Unknown instruction\<close> are \<open>UnknownOpcode\<close>,
  \<open>Incorrect number of operands\<close> is \<open>ArityMismatch\<close>, \<open>Invalid label format\<close> is
  \<open>InvalidOperandSyntax\<close> and \<open>Incorrect type of operand\<close> is \<open>OperandTypeMismatch\<close>.
\<close>

datatype error = MissingHeader | UnknownOpcode | ArityMismatch
  | InvalidOperandSyntax | OperandTypeMismatch

fun exit_status :: "error \<Rightarrow> int" where
  "exit_status MissingHeader = 21"
| "exit_status UnknownOpcode = 23"
| "exit_status ArityMismatch = 23"
| "exit_status InvalidOperandSyntax = 23"
| "exit_status OperandTypeMismatch = 23"

definition validate_operand_type :: "string \<Rightarrow> string \<Rightarrow> string \<Rightarrow> bool" where
  "validate_operand_type expected_type actual_type operand =
     (if expected_type = ''v'' \<and> actual_type = ''var'' then True
      else if expected_type = ''s'' \<and>
          actual_type \<in> set [''var'', ''int'', ''bool'', ''string'', ''nil''] then True
      else if expected_type = ''l'' \<and> actual_type = ''label'' then True
      else if expected_type = ''t'' \<and> actual_type = ''type'' then True
      else False)"

definition determine_operand_type_and_value ::
    "string \<Rightarrow> string \<Rightarrow> error + string \<times> string" where
  "determine_operand_type_and_value operand expected_type =
     (if expected_type = ''l'' then
        (if is_label operand then Inr (''label'', operand) else Inl InvalidOperandSyntax)
      else if is_type operand then Inr (''type'', operand)
      else if is_var operand then Inr (''var'', operand)
      else if is_symb operand then Inr (split_at operand)
      else Inl InvalidOperandSyntax)"

section \<open>Instruction signature table\<close>

definition instructions :: "string \<rightharpoonup> string list" where
  "instructions = map_of [
     (''move'', [''v'', ''s'']),
     (''createframe'', []),
     (''pushframe'', []),
     (''popframe'', []),
     (''defvar'', [''v'']),
     (''call'', [''l'']),
     (''return'', []),
     (''pushs'', [''s'']),
     (''pops'', [''v'']),
     (''add'', [''v'', ''s'', ''s'']),
     (''sub'', [''v'', ''s'', ''s'']),
     (''mul'', [''v'', ''s'', ''s'']),
     (''idiv'', [''v'', ''s'', ''s'']),
     (''lt'', [''v'', ''s'', ''s'']),
     (''gt'', [''v'', ''s'', ''s'']),
     (''eq'', [''v'', ''s'', ''s'']),
     (''and'', [''v'', ''s'', ''s'']),
     (''or'', [''v'', ''s'', ''s'']),
     (''not'', [''v'', ''s'']),
     (''int2char'', [''v'', ''s'']),
     (''stri2int'', [''v'', ''s'', ''s'']),
     (''read'', [''v'', ''t'']),
     (''write'', [''s'']),
     (''concat'', [''v'', ''s'', ''s'']),
     (''strlen'', [''v'', ''s'']),
     (''getchar'', [''v'', ''s'', ''s'']),
     (''setchar'', [''v'', ''s'', ''s'']),
     (''type'', [''v'', ''s'']),
     (''label'', [''l'']),
     (''jump'', [''l'']),
     (''jumpifeq'', [''l'', ''s'', ''s'']),
     (''jumpifneq'', [''l'', ''s'', ''s'']),
     (''exit'', [''s'']),
     (''dprint'', [''s'']),
     (''break'', [])]"

section \<open>Instruction parser\<close>

text \<open>\<open>s.strip()\<close>\<close>

definition strip :: "string \<Rightarrow> string" where
  "strip s = rev (dropWhile isspace (rev (dropWhile isspace s)))"

text \<open>
  \<open>s.split(maxsplit=1)\<close>: leading whitespace is skipped, the first word ends at the next
  whitespace, and what follows the whitespace after it, when there is anything, is the
  second element, kept to the end of the string.
\<close>

definition split_first_word :: "string \<Rightarrow> string list" where
  "split_first_word s =
     (let s1 = dropWhile isspace s in
      if s1 = [] then []
      else let w = takeWhile (\<lambda>c. \<not> isspace c) s1;
               r = dropWhile isspace (dropWhile (\<lambda>c. \<not> isspace c) s1)
           in if r = [] then [w] else [w, r])"

text \<open>
  \<open>re.split(r'\s+', s)\<close>: the pieces between the maximal runs of whitespace, the empty
  pieces before a leading run and after a trailing run included.
\<close>

function re_split_ws :: "string \<Rightarrow> string list" where
  "re_split_ws s =
     (let f = takeWhile (\<lambda>c. \<not> isspace c) s; r = dropWhile (\<lambda>c. \<not> isspace c) s in
      if r = [] then [f] else f # re_split_ws (dropWhile isspace (tl r)))"
  by pat_completeness auto

termination
proof (relation "measure length")
  show "wf (measure length)" by simp
next
  fix s :: string and f r
  assume r: "r = dropWhile (\<lambda>c. \<not> isspace c) s" and ne: "r \<noteq> []"
  have "length (dropWhile isspace (tl r)) \<le> length (tl r)"
    by (rule length_dropWhile_le)
  also have "\<dots> < length r" using ne by (cases r) simp_all
  also have "\<dots> \<le> length s" unfolding r by (rule length_dropWhile_le)
  finally show "(dropWhile isspace (tl r), s) \<in> measure length" by simp
qed

text \<open>
  The \<open>instruction\<close> element: the \<open>order\<close> attribute holds \<open>str(order)\<close>, the \<open>opcode\<close>
  attribute the upper-cased name, and the children \<open>arg1\<close>, \<open>arg2\<close>, ... hold, in order,
  the \<open>type\<close> attribute and the text of each operand.
\<close>

record instruction =
  order :: int
  opcode :: string
  args :: "(string \<times> string) list"

text \<open>
  The loop over \<open>enumerate(operands)\<close>; it runs after the arity check, so the two lists
  have the same length.
\<close>

fun parse_operands :: "string list \<Rightarrow> string list \<Rightarrow> error + (string \<times> string) list" where
  "parse_operands [] expected = Inr []"
| "parse_operands (operand # operands) [] = Inr []"
| "parse_operands (operand # operands) (expected_type # expected) =
     (case determine_operand_type_and_value operand expected_type of
        Inl e \<Rightarrow> Inl e
      | Inr (actual_type, actual_value) \<Rightarrow>
          if \<not> validate_operand_type expected_type actual_type operand
          then Inl OperandTypeMismatch
          else (case parse_operands operands expected of
                  Inl e \<Rightarrow> Inl e
                | Inr rest \<Rightarrow> Inr ((actual_type, actual_value) # rest)))"

definition parse_instruction :: "string \<Rightarrow> int \<Rightarrow> error + instruction" where
  "parse_instruction instr ord =
     (let ws = split_first_word instr in
      if length ws < 1 then Inl UnknownOpcode
      else
        let instruction_name = lower (hd ws);
            operands_raw = (if length ws > 1 then tl ws else [[]])
        in case instructions instruction_name of
             None \<Rightarrow> Inl UnknownOpcode
           | Some operands_expected \<Rightarrow>
               let operands = (if operands_raw = [] \<or> hd operands_raw = [] then []
                               else re_split_ws (strip (hd operands_raw)))
               in if length operands \<noteq> length operands_expected then Inl ArityMismatch
                  else (case parse_operands operands operands_expected of
                          Inl e \<Rightarrow> Inl e
                        | Inr as \<Rightarrow>
                            Inr \<lparr>order = ord, opcode = upper instruction_name, args = as\<rparr>))"

section \<open>Program assembler\<close>

record state =
  header_found :: bool
  instructions_xml :: "instruction list"
  counter :: int

definition initial :: state where
  "initial = \<lparr>header_found = False, instructions_xml = [], counter = 0\<rparr>"

text \<open>\<open>line.split("#")[0]\<close>\<close>

definition before_hash :: "string \<Rightarrow> string" where
  "before_hash s = takeWhile (\<lambda>c. c \<noteq> CHR ''#'') s"

text \<open>One turn of the loop \<open>for line in args.input\<close>; the local \<open>order\<close> is \<open>counter\<close>.\<close>

definition step :: "state \<Rightarrow> string \<Rightarrow> error + state" where
  "step st raw =
     (let line = strip raw in
      if (line \<noteq> [] \<and> hd line = CHR ''#'') \<or> line = [] then Inr st
      else if \<not> header_found st then
        (if is_header (strip (before_hash line)) then Inr (st\<lparr>header_found := True\<rparr>)
         else Inl MissingHeader)
      else
        let line2 = strip (before_hash line) in
        if line2 \<noteq> [] then
          (case parse_instruction line2 (counter st + 1) of
             Inl e \<Rightarrow> Inl e
           | Inr instruction_xml \<Rightarrow>
               Inr (st\<lparr>instructions_xml := instructions_xml st @ [instruction_xml],
                       counter := counter st + 1\<rparr>))
        else Inr st)"

fun run :: "state \<Rightarrow> string list \<Rightarrow> error + state" where
  "run st [] = Inr st"
| "run st (line # lines) = (case step st line of Inl e \<Rightarrow> Inl e | Inr st' \<Rightarrow> run st' lines)"

text \<open>
  \<open>main\<close> on the lines of the input; the result is the list handed to
  \<open>generate_xml_output\<close>.
\<close>

definition assemble :: "string list \<Rightarrow> error + instruction list" where
  "assemble lines =
     (case run initial lines of
        Inl e \<Rightarrow> Inl e
      | Inr st \<Rightarrow> if \<not> header_found st then Inl MissingHeader else Inr (instructions_xml st))"

section \<open>Languages of the patterns\<close>

text \<open>
  The set of strings a pattern matches in full, used to reason about the matcher above.
\<close>

inductive_set star :: "string set \<Rightarrow> string set" for A :: "string set" where
  star_empty: "[] \<in> star A"
| star_more: "u \<in> A \<Longrightarrow> v \<in> star A \<Longrightarrow> u @ v \<in> star A"

fun lang :: "rx \<Rightarrow> string set" where
  "lang Nul = {}"
| "lang Eps = {[]}"
| "lang (Set items) = {[c] | c. in_class items c}"
| "lang (NSet items) = {[c] | c. \<not> in_class items c}"
| "lang (Seq r s) = {u @ v | u v. u \<in> lang r \<and> v \<in> lang s}"
| "lang (Alt r s) = lang r \<union> lang s"
| "lang (Star r) = star (lang r)"

section \<open>Shapes of tokens, stated without patterns\<close>

text \<open>A string without the newline that may end it.\<close>

definition chomp :: "string \<Rightarrow> string" where
  "chomp s = (if s \<noteq> [] \<and> last s = newline then butlast s else s)"

definition symbol_char :: "char \<Rightarrow> bool" where
  "symbol_char c = (c \<in> set ''-$&%*!?'')"

definition ascii_letter :: "char \<Rightarrow> bool" where
  "ascii_letter c = (between 97 122 c \<or> between 65 90 c)"

definition ascii_alnum :: "char \<Rightarrow> bool" where
  "ascii_alnum c = (between 48 57 c \<or> ascii_letter c)"

definition ident_first :: "char \<Rightarrow> bool" where
  "ident_first c = (ascii_letter c \<or> c = CHR ''_'' \<or> symbol_char c)"

text \<open>
  What the source accepts after the first character: \<open>\w\<close> (a letter or digit of any
  script, or the underscore) or one of the seven symbols.
\<close>

definition ident_rest :: "char \<Rightarrow> bool" where
  "ident_rest c = (isalnum c \<or> c = CHR ''_'' \<or> symbol_char c)"

definition ident_shape :: "string \<Rightarrow> bool" where
  "ident_shape s = (s \<noteq> [] \<and> ident_first (hd s) \<and> list_all ident_rest (tl s))"

text \<open>
  The variable grammar in the specification's words: a frame \<open>GF\<close>, \<open>TF\<close> or \<open>LF\<close>, the
  \<open>@\<close>, and a name of ASCII letters, ASCII digits, underscore and the seven symbols that
  does not start with a digit.
\<close>

definition spec_name :: "string \<Rightarrow> bool" where
  "spec_name n = (n \<noteq> [] \<and> ident_first (hd n) \<and>
     list_all (\<lambda>c. ascii_alnum c \<or> c = CHR ''_'' \<or> symbol_char c) (tl n))"

definition spec_is_var :: "string \<Rightarrow> bool" where
  "spec_is_var t = (take 3 t \<in> set [''GF@'', ''TF@'', ''LF@''] \<and> spec_name (drop 3 t))"

definition digits :: "(char \<Rightarrow> bool) \<Rightarrow> string \<Rightarrow> bool" where
  "digits p s = (s \<noteq> [] \<and> list_all p s)"

text \<open>The string after an optional leading sign \<open>c\<close>.\<close>

definition after_sign :: "char \<Rightarrow> string \<Rightarrow> string" where
  "after_sign c s = (if s \<noteq> [] \<and> hd s = c then tl s else s)"

definition hex_digit :: "char \<Rightarrow> bool" where
  "hex_digit c = (between 48 57 c \<or> between 97 102 c \<or> between 65 70 c)"

definition oct_digit :: "char \<Rightarrow> bool" where
  "oct_digit c = between 48 55 c"

text \<open>
  The four integer forms of the source: an optional \<open>-\<close> and decimal digits; an optional
  \<open>-\<close>, \<open>0x\<close> and hexadecimal digits; an optional \<open>-\<close>, \<open>0o\<close> and octal digits; an optional
  \<open>+\<close> and decimal digits.
\<close>

definition int_literal :: "string \<Rightarrow> bool" where
  "int_literal v =
     (digits isdecimal (after_sign CHR ''-'' v) \<or>
      (take 2 (after_sign CHR ''-'' v) = ''0x'' \<and> digits hex_digit (drop 2 (after_sign CHR ''-'' v))) \<or>
      (take 2 (after_sign CHR ''-'' v) = ''0o'' \<and> digits oct_digit (drop 2 (after_sign CHR ''-'' v))) \<or>
      digits isdecimal (after_sign CHR ''+'' v))"

text \<open>
  The four integer forms in the specification's words, where the base prefix may also
  be written \<open>0X\<close> or \<open>0O\<close>.
\<close>

definition claimed_int_literal :: "string \<Rightarrow> bool" where
  "claimed_int_literal v =
     (digits isdecimal (after_sign CHR ''-'' v) \<or>
      (take 2 (after_sign CHR ''-'' v) \<in> set [''0x'', ''0X''] \<and>
         digits hex_digit (drop 2 (after_sign CHR ''-'' v))) \<or>
      (take 2 (after_sign CHR ''-'' v) \<in> set [''0o'', ''0O''] \<and>
         digits oct_digit (drop 2 (after_sign CHR ''-'' v))) \<or>
      digits isdecimal (after_sign CHR ''+'' v))"

text \<open>
  The token rebuilt from a resolved kind and value: the lower-cased kind, \<open>@\<close> and the
  value.
\<close>

definition reconstruct :: "string \<Rightarrow> string \<Rightarrow> string" where
  "reconstruct k v = lower k @ ''@'' @ v"

section \<open>Lines as the assembler sees them\<close>

text \<open>A string without its trailing whitespace.\<close>

definition rstrip :: "string \<Rightarrow> string" where
  "rstrip s = rev (dropWhile isspace (rev s))"

text \<open>
  The content of a line: what is left after the comment, from the first \<open>#\<close> on, is
  removed and the rest is trimmed. A line is blank when nothing is left: it is empty,
  all whitespace, or a comment only.
\<close>

definition content :: "string \<Rightarrow> string" where
  "content l = strip (before_hash l)"

definition blank :: "string \<Rightarrow> bool" where
  "blank l = (content l = [])"

text \<open>
  The words of a line, as \<open>str.split()\<close> gives them: the maximal runs of characters that
  are not whitespace. The first word of an instruction line is its opcode and the words
  after it are its operand tokens.
\<close>

function split_words :: "string \<Rightarrow> string list" where
  "split_words s =
     (let s1 = dropWhile isspace s in
      if s1 = [] then []
      else takeWhile (\<lambda>c. \<not> isspace c) s1 # split_words (dropWhile (\<lambda>c. \<not> isspace c) s1))"
  by pat_completeness auto

termination
proof (relation "measure length")
  show "wf (measure length)" by simp
next
  fix s s1 :: string
  assume s1: "s1 = dropWhile isspace s" and ne: "s1 \<noteq> []"
  then have "\<not> isspace (hd s1)" using hd_dropWhile [of isspace s] by simp
  with ne have "dropWhile (\<lambda>c. \<not> isspace c) s1 = dropWhile (\<lambda>c. \<not> isspace c) (tl s1)"
    by (cases s1) simp_all
  then have "length (dropWhile (\<lambda>c. \<not> isspace c) s1) \<le> length (tl s1)"
    using length_dropWhile_le [of "\<lambda>c. \<not> isspace c" "tl s1"] by (simp only:)
  also have "\<dots> < length s1" using ne by (cases s1) simp_all
  also have "\<dots> \<le> length s" unfolding s1 by (rule length_dropWhile_le)
  finally show "(dropWhile (\<lambda>c. \<not> isspace c) s1, s) \<in> measure length" by simp
qed

declare split_words.simps [simp del]

declare re_split_ws.simps [simp del]

section \<open>The matcher against the languages\<close>

lemma nullable_lang: "nullable r = ([] \<in> lang r)"
  by (induction r) (auto intro: star.star_empty)

lemma star_cons:
  "(c # s \<in> star A) = (\<exists>u v. s = u @ v \<and> c # u \<in> A \<and> v \<in> star A)"
proof
  assume "c # s \<in> star A"
  then show "\<exists>u v. s = u @ v \<and> c # u \<in> A \<and> v \<in> star A"
  proof (induction "c # s" arbitrary: s rule: star.induct)
    case (star_more u v)
    show ?case
    proof (cases u)
      case Nil
      with star_more show ?thesis by simp
    next
      case (Cons a u')
      with star_more.hyps(1,2) star_more.hyps(4) show ?thesis by auto
    qed
  qed
next
  assume "\<exists>u v. s = u @ v \<and> c # u \<in> A \<and> v \<in> star A"
  then obtain u v where "s = u @ v" "c # u \<in> A" "v \<in> star A" by blast
  then show "c # s \<in> star A" using star.star_more [of "c # u" A v] by simp
qed

lemma cons_in_conc:
  "(c # s \<in> {u @ v | u v. u \<in> A \<and> v \<in> B}) =
   (([] \<in> A \<and> c # s \<in> B) \<or> (\<exists>u v. s = u @ v \<and> c # u \<in> A \<and> v \<in> B))"
proof
  assume "c # s \<in> {u @ v | u v. u \<in> A \<and> v \<in> B}"
  then obtain u v where uv: "c # s = u @ v" "u \<in> A" "v \<in> B" by blast
  show "([] \<in> A \<and> c # s \<in> B) \<or> (\<exists>u v. s = u @ v \<and> c # u \<in> A \<and> v \<in> B)"
  proof (cases u)
    case Nil
    with uv show ?thesis by simp
  next
    case (Cons a u')
    with uv have "s = u' @ v" "c # u' \<in> A" by simp_all
    with uv(3) show ?thesis by blast
  qed
next
  assume "([] \<in> A \<and> c # s \<in> B) \<or> (\<exists>u v. s = u @ v \<and> c # u \<in> A \<and> v \<in> B)"
  then show "c # s \<in> {u @ v | u v. u \<in> A \<and> v \<in> B}"
  proof
    assume "[] \<in> A \<and> c # s \<in> B"
    then have "c # s = [] @ (c # s) \<and> [] \<in> A \<and> c # s \<in> B" by simp
    then show ?thesis by blast
  next
    assume "\<exists>u v. s = u @ v \<and> c # u \<in> A \<and> v \<in> B"
    then obtain u v where "s = u @ v" "c # u \<in> A" "v \<in> B" by blast
    then have "c # s = (c # u) @ v \<and> c # u \<in> A \<and> v \<in> B" by simp
    then show ?thesis by blast
  qed
qed

lemma in_conc: "(s \<in> {u @ v | u v. u \<in> A \<and> v \<in> B}) = (\<exists>u v. s = u @ v \<and> u \<in> A \<and> v \<in> B)"
  by blast

lemma lang_deriv: "(s \<in> lang (deriv c r)) = (c # s \<in> lang r)"
proof (induction r arbitrary: s)
  case Nul
  show ?case by simp
next
  case Eps
  show ?case by simp
next
  case (Set items)
  show ?case by simp
next
  case (NSet items)
  show ?case by simp
next
  case (Seq r1 r2)
  have "(c # s \<in> lang (Seq r1 r2)) =
        ((nullable r1 \<and> s \<in> lang (deriv c r2)) \<or>
         (\<exists>u v. s = u @ v \<and> u \<in> lang (deriv c r1) \<and> v \<in> lang r2))"
    by (simp only: lang.simps cons_in_conc Seq nullable_lang)
  moreover have "(s \<in> lang (deriv c (Seq r1 r2))) =
        ((nullable r1 \<and> s \<in> lang (deriv c r2)) \<or>
         (\<exists>u v. s = u @ v \<and> u \<in> lang (deriv c r1) \<and> v \<in> lang r2))"
    by (cases "nullable r1") (simp_all only: deriv.simps lang.simps in_conc if_True if_False Un_iff, blast+)
  ultimately show ?case by simp
next
  case (Alt r1 r2)
  then show ?case by simp
next
  case (Star r)
  have "(c # s \<in> lang (Star r)) = (\<exists>u v. s = u @ v \<and> u \<in> lang (deriv c r) \<and> v \<in> star (lang r))"
    by (simp only: lang.simps star_cons Star)
  moreover have "(s \<in> lang (deriv c (Star r))) =
        (\<exists>u v. s = u @ v \<and> u \<in> lang (deriv c r) \<and> v \<in> star (lang r))"
    by (simp only: deriv.simps lang.simps in_conc)
  ultimately show ?case by simp
qed

lemma lang_derivs: "(t \<in> lang (derivs s r)) = (s @ t \<in> lang r)"
  by (induction s arbitrary: r) (simp_all add: lang_deriv)

lemma fullmatch_lang: "fullmatch r s = (s \<in> lang r)"
  by (simp add: fullmatch_def nullable_lang lang_derivs)

lemma re_match_lang:
  "re_match r s = (s \<in> lang r \<or> (s \<noteq> [] \<and> last s = newline \<and> butlast s \<in> lang r))"
  by (simp add: re_match_def fullmatch_lang)

lemma nil_in_lang: "([] \<in> lang r) = nullable r"
  by (simp add: nullable_lang)

lemma cons_in_lang: "(c # s \<in> lang r) = (s \<in> lang (deriv c r))"
  by (simp add: lang_deriv)

lemma lang_Seq_Eps: "lang (Seq Eps r) = lang r"
  by simp

lemma lang_Seq_Nul: "lang (Seq Nul r) = {}"
  by simp

lemma in_class_Nil: "in_class [] c = False"
  by (simp add: in_class_def)

lemma in_class_Cons: "in_class (i # items) c = (item_match i c \<or> in_class items c)"
  by (simp add: in_class_def)

lemmas lang_step = nil_in_lang cons_in_lang lang_Seq_Eps lang_Seq_Nul in_class_Nil in_class_Cons

lemma lang_Lit: "(s \<in> lang (Lit w)) = (s = w)"
proof (induction w arbitrary: s)
  case Nil
  then show ?case by simp
next
  case (Cons a w)
  show ?case
  proof (cases s)
    case Nil
    then show ?thesis by (simp add: lang_step del: lang.simps)
  next
    case (Cons c t)
    then show ?thesis using Cons.IH [of t] by (simp add: lang_step del: lang.simps)
  qed
qed

lemma lang_LitI: "(s \<in> lang (LitI w)) = (map lower_char s = map lower_char w)"
proof (induction w arbitrary: s)
  case Nil
  then show ?case by simp
next
  case (Cons a w)
  show ?case
  proof (cases s)
    case Nil
    then show ?thesis by (simp add: lang_step del: lang.simps)
  next
    case (Cons c t)
    then show ?thesis using Cons.IH [of t] by (simp add: lang_step del: lang.simps)
  qed
qed

lemma lang_Star_Set: "(s \<in> lang (Star (Set items))) = list_all (in_class items) s"
proof (induction s)
  case Nil
  then show ?case by (simp add: lang_step del: lang.simps)
next
  case (Cons a s)
  then show ?case by (simp add: lang_step del: lang.simps)
qed

lemma lang_Plus_Set:
  "(s \<in> lang (Plus (Set items))) = (s \<noteq> [] \<and> list_all (in_class items) s)"
proof (cases s)
  case Nil
  then show ?thesis by (simp add: Plus_def lang_step del: lang.simps)
next
  case (Cons a t)
  then show ?thesis by (simp add: Plus_def lang_step lang_Star_Set del: lang.simps)
qed

lemma lang_Seq_Set:
  "(s \<in> lang (Seq (Set items) r)) = (s \<noteq> [] \<and> in_class items (hd s) \<and> tl s \<in> lang r)"
proof (cases s)
  case Nil
  then show ?thesis by (simp add: lang_step del: lang.simps)
next
  case (Cons a t)
  then show ?thesis by (simp add: lang_step del: lang.simps)
qed

lemma lang_Seq_Lit:
  "(s \<in> lang (Seq (Lit w) r)) = (take (length w) s = w \<and> drop (length w) s \<in> lang r)"
proof
  assume "s \<in> lang (Seq (Lit w) r)"
  then obtain u v where "s = u @ v" "u \<in> lang (Lit w)" "v \<in> lang r"
    by (auto simp only: lang.simps in_conc)
  then show "take (length w) s = w \<and> drop (length w) s \<in> lang r" by (simp add: lang_Lit)
next
  assume a: "take (length w) s = w \<and> drop (length w) s \<in> lang r"
  then have "s = w @ drop (length w) s" by (metis append_take_drop_id)
  moreover have "w \<in> lang (Lit w)" by (simp add: lang_Lit)
  ultimately have "\<exists>u v. s = u @ v \<and> u \<in> lang (Lit w) \<and> v \<in> lang r" using a by blast
  then show "s \<in> lang (Seq (Lit w) r)" by (simp only: lang.simps in_conc)
qed

lemma lang_Opt_Lit: "(u \<in> lang (Opt (Lit [c]))) = (u = [c] \<or> u = [])"
  unfolding Opt_def using lang_Lit [of u "[c]"] by (auto simp del: Lit.simps)

lemma lang_Seq_Opt_Lit:
  "(s \<in> lang (Seq (Opt (Lit [c])) r)) = (s \<in> lang r \<or> (s \<noteq> [] \<and> hd s = c \<and> tl s \<in> lang r))"
proof -
  have "(s \<in> lang (Seq (Opt (Lit [c])) r)) =
        (\<exists>u v. s = u @ v \<and> (u = [c] \<or> u = []) \<and> v \<in> lang r)"
    unfolding lang.simps(5) lang_Opt_Lit by blast
  also have "\<dots> = ((\<exists>v. s = [c] @ v \<and> v \<in> lang r) \<or> (\<exists>v. s = [] @ v \<and> v \<in> lang r))"
    by blast
  also have "\<dots> = (s \<in> lang r \<or> (s \<noteq> [] \<and> hd s = c \<and> tl s \<in> lang r))"
    by (cases s) auto
  finally show ?thesis .
qed

section \<open>Identifiers, integer literals and type keywords\<close>

lemma code_simps:
  "code CHR ''a'' = 97" "code CHR ''z'' = 122" "code CHR ''A'' = 65" "code CHR ''Z'' = 90"
  "code CHR ''0'' = 48" "code CHR ''9'' = 57" "code CHR ''f'' = 102" "code CHR ''F'' = 70"
  "code CHR ''7'' = 55"
  by (simp_all add: code_def)

lemma first_class:
  "in_class (Rng CHR ''a'' CHR ''z'' # Rng CHR ''A'' CHR ''Z'' # Ch CHR ''_'' # symbols) = ident_first"
  by (rule ext) (auto simp: in_class_def symbols_def ident_first_def ascii_letter_def symbol_char_def code_simps)

lemma rest_class: "in_class (Word # symbols) = ident_rest"
  by (rule ext) (auto simp: in_class_def symbols_def ident_rest_def symbol_char_def)

lemma ident_lang: "(s \<in> lang ident_rx) = ident_shape s"
  unfolding ident_rx_def lang_Seq_Set lang_Star_Set ident_shape_def
  by (simp add: first_class rest_class)

lemma re_match_chomp:
  assumes "\<And>t. t \<in> lang r \<Longrightarrow> t \<noteq> [] \<Longrightarrow> last t \<noteq> newline"
  shows "re_match r s = (chomp s \<in> lang r)"
proof (cases "s \<noteq> [] \<and> last s = newline")
  case True
  then have "s \<notin> lang r" using assms by blast
  with True show ?thesis by (simp add: re_match_lang chomp_def)
next
  case False
  then show ?thesis by (auto simp: re_match_lang chomp_def)
qed

lemma not_ident_newline: "\<not> ident_first newline" "\<not> ident_rest newline"
  by (simp_all add: ident_first_def ident_rest_def ascii_letter_def symbol_char_def isalnum_def
      between_def code_def)

lemma ident_shape_last: "ident_shape t \<Longrightarrow> last t \<noteq> newline"
proof (cases t)
  case Nil
  assume "ident_shape t"
  with Nil show ?thesis by (simp add: ident_shape_def)
next
  case (Cons c cs)
  assume "ident_shape t"
  with Cons have f: "ident_first c" and r: "list_all ident_rest cs" by (simp_all add: ident_shape_def)
  show ?thesis
  proof (cases cs)
    case Nil
    with Cons f show ?thesis using not_ident_newline(1) by auto
  next
    case (Cons d ds)
    then have "last t \<in> set cs" using \<open>t = c # cs\<close> by simp
    with r have "ident_rest (last t)" by (simp add: list_all_iff)
    then show ?thesis using not_ident_newline(2) by auto
  qed
qed

lemma re_match_ident: "re_match ident_rx s = ident_shape (chomp s)"
proof -
  have "re_match ident_rx s = (chomp s \<in> lang ident_rx)"
    by (rule re_match_chomp) (simp add: ident_lang ident_shape_last)
  then show ?thesis by (simp add: ident_lang)
qed

lemma digit_class: "in_class [Digit] = isdecimal"
  by (rule ext) (simp add: in_class_def)

lemma hex_class:
  "in_class [Rng CHR ''0'' CHR ''9'', Rng CHR ''a'' CHR ''f'', Rng CHR ''A'' CHR ''F''] = hex_digit"
  by (rule ext) (simp add: in_class_def hex_digit_def code_simps)

lemma oct_class: "in_class [Rng CHR ''0'' CHR ''7''] = oct_digit"
  by (rule ext) (simp add: in_class_def oct_digit_def code_simps)

lemma lang_digits: "(s \<in> lang (Plus (Set items))) = digits (in_class items) s"
  by (simp add: lang_Plus_Set digits_def)

lemma sign_opt:
  assumes "\<And>t. X t \<Longrightarrow> t \<noteq> [] \<and> hd t \<noteq> c"
  shows "(X s \<or> (s \<noteq> [] \<and> hd s = c \<and> X (tl s))) = X (after_sign c s)"
  using assms by (auto simp: after_sign_def)

lemma digits_hd: "digits p t \<Longrightarrow> \<not> p c \<Longrightarrow> t \<noteq> [] \<and> hd t \<noteq> c"
  by (cases t) (auto simp: digits_def)

lemma prefix_hd: "take 2 t = [a, b] \<Longrightarrow> a \<noteq> c \<Longrightarrow> t \<noteq> [] \<and> hd t \<noteq> c"
  by (cases t) auto

lemma not_digit:
  "\<not> isdecimal CHR ''-''" "\<not> isdecimal CHR ''+''" "\<not> isdecimal newline"
  "\<not> hex_digit newline" "\<not> oct_digit newline"
  "\<not> isdecimal CHR ''@''" "\<not> hex_digit CHR ''@''" "\<not> oct_digit CHR ''@''"
  by (simp_all add: isdecimal_def hex_digit_def oct_digit_def between_def code_def)

lemma int_dec_lang: "(s \<in> lang int_dec_rx) = digits isdecimal (after_sign CHR ''-'' s)"
proof -
  have "(s \<in> lang int_dec_rx) =
        (digits isdecimal s \<or> (s \<noteq> [] \<and> hd s = CHR ''-'' \<and> digits isdecimal (tl s)))"
    unfolding int_dec_rx_def lang_Seq_Opt_Lit lang_digits digit_class ..
  also have "\<dots> = digits isdecimal (after_sign CHR ''-'' s)"
    by (rule sign_opt) (rule digits_hd, assumption, rule not_digit)
  finally show ?thesis .
qed

lemma int_plus_lang: "(s \<in> lang int_plus_rx) = digits isdecimal (after_sign CHR ''+'' s)"
proof -
  have "(s \<in> lang int_plus_rx) =
        (digits isdecimal s \<or> (s \<noteq> [] \<and> hd s = CHR ''+'' \<and> digits isdecimal (tl s)))"
    unfolding int_plus_rx_def lang_Seq_Opt_Lit lang_digits digit_class ..
  also have "\<dots> = digits isdecimal (after_sign CHR ''+'' s)"
    by (rule sign_opt) (rule digits_hd, assumption, rule not_digit)
  finally show ?thesis .
qed

lemma int_hex_lang:
  "(s \<in> lang int_hex_rx) =
   (take 2 (after_sign CHR ''-'' s) = ''0x'' \<and> digits hex_digit (drop 2 (after_sign CHR ''-'' s)))"
proof -
  let ?X = "\<lambda>t. take 2 t = ''0x'' \<and> digits hex_digit (drop 2 t)"
  have "(s \<in> lang int_hex_rx) = (?X s \<or> (s \<noteq> [] \<and> hd s = CHR ''-'' \<and> ?X (tl s)))"
    unfolding int_hex_rx_def lang_Seq_Opt_Lit lang_Seq_Lit lang_digits hex_class by (simp add: numeral_2_eq_2)
  also have "\<dots> = ?X (after_sign CHR ''-'' s)"
    by (rule sign_opt [of ?X]) (auto dest: prefix_hd)
  finally show ?thesis .
qed

lemma int_oct_lang:
  "(s \<in> lang int_oct_rx) =
   (take 2 (after_sign CHR ''-'' s) = ''0o'' \<and> digits oct_digit (drop 2 (after_sign CHR ''-'' s)))"
proof -
  let ?X = "\<lambda>t. take 2 t = ''0o'' \<and> digits oct_digit (drop 2 t)"
  have "(s \<in> lang int_oct_rx) = (?X s \<or> (s \<noteq> [] \<and> hd s = CHR ''-'' \<and> ?X (tl s)))"
    unfolding int_oct_rx_def lang_Seq_Opt_Lit lang_Seq_Lit lang_digits oct_class by (simp add: numeral_2_eq_2)
  also have "\<dots> = ?X (after_sign CHR ''-'' s)"
    by (rule sign_opt [of ?X]) (auto dest: prefix_hd)
  finally show ?thesis .
qed

lemma digits_last: "digits p t \<Longrightarrow> p (last t)"
  by (simp add: digits_def list_all_iff)

lemma digits_set: "digits p t \<Longrightarrow> c \<in> set t \<Longrightarrow> p c"
  by (simp add: digits_def list_all_iff)

lemma last_after_sign: "after_sign c s \<noteq> [] \<Longrightarrow> last (after_sign c s) = last s"
  by (cases s) (auto simp: after_sign_def)

lemma digits_drop_last: "digits p (drop n t) \<Longrightarrow> p (last t)"
proof -
  assume d: "digits p (drop n t)"
  then have "drop n t \<noteq> []" by (simp add: digits_def)
  then have "last (drop n t) = last t" by simp
  with digits_last [OF d] show ?thesis by simp
qed

lemma digits_sign_last: "digits p (drop n (after_sign c s)) \<Longrightarrow> p (last s)"
proof -
  assume d: "digits p (drop n (after_sign c s))"
  then have "after_sign c s \<noteq> []" by (auto simp: digits_def)
  with digits_drop_last [OF d] show ?thesis by (simp add: last_after_sign)
qed

lemma int_lang_last:
  "s \<in> lang int_dec_rx \<Longrightarrow> last s \<noteq> newline"
  "s \<in> lang int_hex_rx \<Longrightarrow> last s \<noteq> newline"
  "s \<in> lang int_oct_rx \<Longrightarrow> last s \<noteq> newline"
  "s \<in> lang int_plus_rx \<Longrightarrow> last s \<noteq> newline"
  using digits_sign_last [of isdecimal 0 "CHR ''-''" s] digits_sign_last [of isdecimal 0 "CHR ''+''" s]
    digits_sign_last [of hex_digit 2 "CHR ''-''" s] digits_sign_last [of oct_digit 2 "CHR ''-''" s]
    not_digit
  by (auto simp: int_dec_lang int_hex_lang int_oct_lang int_plus_lang)

lemma re_match_int:
  "(re_match int_dec_rx v \<or> re_match int_hex_rx v \<or> re_match int_oct_rx v \<or>
    re_match int_plus_rx v) = int_literal (chomp v)"
proof -
  have "re_match int_dec_rx v = (chomp v \<in> lang int_dec_rx)"
    by (rule re_match_chomp) (rule int_lang_last)
  moreover have "re_match int_hex_rx v = (chomp v \<in> lang int_hex_rx)"
    by (rule re_match_chomp) (rule int_lang_last)
  moreover have "re_match int_oct_rx v = (chomp v \<in> lang int_oct_rx)"
    by (rule re_match_chomp) (rule int_lang_last)
  moreover have "re_match int_plus_rx v = (chomp v \<in> lang int_plus_rx)"
    by (rule re_match_chomp) (rule int_lang_last)
  ultimately show ?thesis
    by (simp add: int_dec_lang int_hex_lang int_oct_lang int_plus_lang int_literal_def)
qed

lemma type_lang: "(s \<in> lang type_rx) = (s \<in> set [''int'', ''bool'', ''string'', ''nil''])"
  unfolding type_rx_def lang.simps(6) Un_iff lang_Lit by auto

lemma is_type_chomp: "is_type t = (chomp t \<in> set [''int'', ''bool'', ''string'', ''nil''])"
proof -
  have "re_match type_rx t = (chomp t \<in> lang type_rx)"
    by (rule re_match_chomp) (auto simp: type_lang)
  then show ?thesis by (simp add: is_type_def type_lang)
qed

lemma is_type_keywords: "is_type ''int''" "is_type ''bool''" "is_type ''string''" "is_type ''nil''"
  by (simp_all add: is_type_chomp chomp_def)

section \<open>Splitting at the first \<open>@\<close>\<close>

lemma split_at_append:
  "CHR ''@'' \<notin> set f \<Longrightarrow> split_at (f @ CHR ''@'' # v) = (f, v)"
  by (induction f) (auto simp: split_at_def)

lemma split_at_join:
  assumes "CHR ''@'' \<in> set t"
  shows "t = fst (split_at t) @ CHR ''@'' # snd (split_at t) \<and> CHR ''@'' \<notin> set (fst (split_at t))"
proof -
  let ?d = "dropWhile (\<lambda>c. c \<noteq> CHR ''@'') t"
  have ne: "?d \<noteq> []" using assms by (simp add: dropWhile_eq_Nil_conv)
  then have "hd ?d = CHR ''@''" using hd_dropWhile [of "\<lambda>c. c \<noteq> CHR ''@''" t] by simp
  with ne have "?d = CHR ''@'' # tl ?d" by (cases ?d) simp_all
  then have "t = takeWhile (\<lambda>c. c \<noteq> CHR ''@'') t @ CHR ''@'' # tl ?d"
    using takeWhile_dropWhile_id [of "\<lambda>c. c \<noteq> CHR ''@''" t] by simp
  moreover have "CHR ''@'' \<notin> set (takeWhile (\<lambda>c. c \<noteq> CHR ''@'') t)"
    using set_takeWhileD by fastforce
  ultimately show ?thesis by (simp add: split_at_def)
qed

lemma frame_prefix:
  assumes "CHR ''@'' \<in> set t"
  shows "(fst (split_at t) \<in> set [''GF'', ''TF'', ''LF'']) =
         (take 3 t \<in> set [''GF@'', ''TF@'', ''LF@''])"
    and "fst (split_at t) \<in> set [''GF'', ''TF'', ''LF''] \<Longrightarrow> snd (split_at t) = drop 3 t"
proof -
  obtain f v where fv: "split_at t = (f, v)" by (cases "split_at t")
  with split_at_join [OF assms] have t: "t = f @ CHR ''@'' # v" and nf: "CHR ''@'' \<notin> set f" by simp_all
  show "(fst (split_at t) \<in> set [''GF'', ''TF'', ''LF'']) =
         (take 3 t \<in> set [''GF@'', ''TF@'', ''LF@''])"
  proof
    assume "fst (split_at t) \<in> set [''GF'', ''TF'', ''LF'']"
    with fv t show "take 3 t \<in> set [''GF@'', ''TF@'', ''LF@'']" by auto
  next
    assume a: "take 3 t \<in> set [''GF@'', ''TF@'', ''LF@'']"
    have "t = take 3 t @ drop 3 t" by simp
    moreover from a have "take 3 t = ''GF@'' \<or> take 3 t = ''TF@'' \<or> take 3 t = ''LF@''" by simp
    ultimately consider "t = ''GF'' @ CHR ''@'' # drop 3 t" | "t = ''TF'' @ CHR ''@'' # drop 3 t"
      | "t = ''LF'' @ CHR ''@'' # drop 3 t"
      by (elim disjE) simp_all
    then show "fst (split_at t) \<in> set [''GF'', ''TF'', ''LF'']"
    proof cases
      case 1
      then have "split_at t = (''GF'', drop 3 t)" using split_at_append [of "''GF''" "drop 3 t"] by simp
      then show ?thesis by simp
    next
      case 2
      then have "split_at t = (''TF'', drop 3 t)" using split_at_append [of "''TF''" "drop 3 t"] by simp
      then show ?thesis by simp
    next
      case 3
      then have "split_at t = (''LF'', drop 3 t)" using split_at_append [of "''LF''" "drop 3 t"] by simp
      then show ?thesis by simp
    qed
  qed
  show "fst (split_at t) \<in> set [''GF'', ''TF'', ''LF''] \<Longrightarrow> snd (split_at t) = drop 3 t"
    using fv t by auto
qed

lemma prefix_has_at: "take 3 t \<in> set [''GF@'', ''TF@'', ''LF@''] \<Longrightarrow> CHR ''@'' \<in> set t"
proof -
  assume a: "take 3 t \<in> set [''GF@'', ''TF@'', ''LF@'']"
  then have "CHR ''@'' \<in> set (take 3 t)" by auto
  then show ?thesis by (rule in_set_takeD)
qed

lemma is_var_alt:
  "is_var t = (CHR ''@'' \<in> set t \<and> fst (split_at t) \<in> set [''GF'', ''TF'', ''LF''] \<and>
     re_match ident_rx (snd (split_at t)))"
  by (auto simp: is_var_def Let_def split_def)

lemma is_symb_alt:
  "is_symb t = (CHR ''@'' \<in> set t \<and>
     (fst (split_at t) = ''nil'' \<and> snd (split_at t) = ''nil'' \<or>
      fst (split_at t) = ''int'' \<and> int_literal (chomp (snd (split_at t))) \<or>
      fst (split_at t) = ''bool'' \<and> snd (split_at t) \<in> set [''true'', ''false''] \<or>
      fst (split_at t) = ''string'' \<and> re_match string_rx (snd (split_at t))))"
  using is_type_keywords
  by (auto simp: is_symb_def Let_def split_def re_match_int [symmetric])

lemma split_prefix:
  assumes "CHR ''@'' \<in> set t" and "CHR ''@'' \<notin> set k"
  shows "(fst (split_at t) = k) = (take (Suc (length k)) t = k @ ''@'')"
    and "fst (split_at t) = k \<Longrightarrow> snd (split_at t) = drop (Suc (length k)) t"
proof -
  obtain f v where fv: "split_at t = (f, v)" by (cases "split_at t")
  with split_at_join [OF assms(1)] have t: "t = f @ CHR ''@'' # v" and nf: "CHR ''@'' \<notin> set f"
    by simp_all
  show "(fst (split_at t) = k) = (take (Suc (length k)) t = k @ ''@'')"
  proof
    assume "fst (split_at t) = k"
    with fv t show "take (Suc (length k)) t = k @ ''@''" by auto
  next
    assume a: "take (Suc (length k)) t = k @ ''@''"
    have "t = take (Suc (length k)) t @ drop (Suc (length k)) t" by simp
    with a have "t = k @ CHR ''@'' # drop (Suc (length k)) t" by simp
    then have "split_at t = (k, drop (Suc (length k)) t)"
      using split_at_append [OF assms(2), of "drop (Suc (length k)) t"] by simp
    then show "fst (split_at t) = k" by simp
  qed
  show "fst (split_at t) = k \<Longrightarrow> snd (split_at t) = drop (Suc (length k)) t"
    using fv t by auto
qed

lemma count_at_pos: "0 < count_list t c \<Longrightarrow> c \<in> set t"
  by (metis count_notin less_nat_zero_code)

lemma digits_no_at: "digits p s \<Longrightarrow> \<not> p c \<Longrightarrow> c \<notin> set s"
  using digits_set by blast

lemma after_sign_set: "c \<in> set s \<Longrightarrow> c \<noteq> g \<Longrightarrow> c \<in> set (after_sign g s)"
  by (cases s) (auto simp: after_sign_def)

lemma prefixed_digits_no_at:
  assumes "take 2 a = [x, y]" and "digits p (drop 2 a)" and "\<not> p c" and "c \<noteq> x" and "c \<noteq> y"
  shows "c \<notin> set a"
proof
  assume "c \<in> set a"
  then have "c \<in> set (take 2 a @ drop 2 a)" by simp
  then have "c \<in> set (take 2 a) \<or> c \<in> set (drop 2 a)" by (simp only: set_append Un_iff)
  with assms show False using digits_set by auto
qed

lemma int_literal_no_at: "int_literal w \<Longrightarrow> CHR ''@'' \<notin> set w"
proof
  assume i: "int_literal w" and m: "CHR ''@'' \<in> set w"
  from m have a: "CHR ''@'' \<in> set (after_sign CHR ''-'' w)" "CHR ''@'' \<in> set (after_sign CHR ''+'' w)"
    by (simp_all add: after_sign_set)
  from i consider "digits isdecimal (after_sign CHR ''-'' w)"
    | "take 2 (after_sign CHR ''-'' w) = ''0x''" "digits hex_digit (drop 2 (after_sign CHR ''-'' w))"
    | "take 2 (after_sign CHR ''-'' w) = ''0o''" "digits oct_digit (drop 2 (after_sign CHR ''-'' w))"
    | "digits isdecimal (after_sign CHR ''+'' w)"
    by (auto simp: int_literal_def)
  then show False
  proof cases
    case 1
    then show ?thesis using a(1) digits_no_at not_digit(6) by blast
  next
    case 2
    then show ?thesis using a(1) prefixed_digits_no_at [OF 2(1) 2(2) not_digit(7)] by simp
  next
    case 3
    then show ?thesis using a(1) prefixed_digits_no_at [OF 3(1) 3(2) not_digit(8)] by simp
  next
    case 4
    then show ?thesis using a(2) digits_no_at not_digit(6) by blast
  qed
qed

lemma chomp_keeps: "c \<in> set s \<Longrightarrow> c \<noteq> newline \<Longrightarrow> c \<in> set (chomp s)"
proof (cases "s \<noteq> [] \<and> last s = newline")
  case True
  assume c: "c \<in> set s" "c \<noteq> newline"
  from True have "s = butlast s @ [newline]" by (metis append_butlast_last_id)
  then have "set s = set (butlast s) \<union> {newline}" by (metis set_append list.set(1) list.set(2))
  with c True show ?thesis by (auto simp: chomp_def)
next
  case False
  assume "c \<in> set s"
  with False show ?thesis by (auto simp: chomp_def)
qed

section \<open>Facts on the operand resolver\<close>

lemma chomp_hd: "chomp s \<noteq> [] \<Longrightarrow> hd (chomp s) = hd s"
  by (cases s) (auto simp: chomp_def split: if_splits)

lemma is_type_hd: "is_type s \<Longrightarrow> hd s \<in> set ''ibsn''"
proof -
  assume "is_type s"
  then have c: "chomp s \<in> set [''int'', ''bool'', ''string'', ''nil'']" by (simp add: is_type_chomp)
  then have "chomp s \<noteq> []" by auto
  then have "hd (chomp s) = hd s" by (rule chomp_hd)
  with c show ?thesis by auto
qed

lemma lower_keywords:
  "lower ''int'' = ''int''" "lower ''bool'' = ''bool''" "lower ''string'' = ''string''"
  "lower ''nil'' = ''nil''" "lower ''var'' = ''var''" "lower ''type'' = ''type''"
  by (simp_all add: lower_def lower_char_def between_def code_def)

lemma determine_symbol:
  "determine_operand_type_and_value t ''s'' =
     (if is_type t then Inr (''type'', t)
      else if is_var t then Inr (''var'', t)
      else if is_symb t then Inr (split_at t)
      else Inl InvalidOperandSyntax)"
  by (simp add: determine_operand_type_and_value_def)

lemma is_symb_kind:
  "is_symb t \<Longrightarrow> fst (split_at t) \<in> set [''nil'', ''int'', ''bool'', ''string'']"
  by (auto simp: is_symb_alt)

lemma unresolvable_prefix:
  assumes "k \<in> set [''var'', ''type'']"
  shows "determine_operand_type_and_value (k @ CHR ''@'' # v) ''s'' = Inl InvalidOperandSyntax"
proof -
  let ?t = "k @ CHR ''@'' # v"
  have nk: "CHR ''@'' \<notin> set k" using assms by auto
  have sp: "split_at ?t = (k, v)" using nk by (rule split_at_append)
  have "hd ?t \<notin> set ''ibsn''" using assms by auto
  then have "\<not> is_type ?t" using is_type_hd by blast
  moreover have "\<not> is_var ?t" using assms by (auto simp: is_var_alt sp)
  moreover have "\<not> is_symb ?t" using assms is_symb_kind [of ?t] by (auto simp: sp)
  ultimately show ?thesis by (simp add: determine_symbol)
qed

section \<open>Trimming and comment stripping\<close>

lemma strip_rstrip: "strip s = rstrip (dropWhile isspace s)"
  by (simp add: strip_def rstrip_def)

lemma rstrip_Nil: "rstrip [] = []"
  by (simp add: rstrip_def)

lemma rstrip_empty: "(rstrip s = []) = list_all isspace s"
  by (simp add: rstrip_def dropWhile_eq_Nil_conv list_all_iff)

lemma rstrip_Cons: "rstrip (x # s) = (if isspace x \<and> rstrip s = [] then [] else x # rstrip s)"
proof (cases "list_all isspace s")
  case True
  then have "\<forall>c\<in>set (rev s). isspace c" by (simp add: list_all_iff)
  then have "dropWhile isspace (rev s @ [x]) = dropWhile isspace [x]"
    by (simp add: dropWhile_append)
  with True show ?thesis by (simp add: rstrip_def rstrip_empty [symmetric, unfolded rstrip_def])
next
  case False
  then have "\<not> (\<forall>c\<in>set (rev s). isspace c)" by (simp add: list_all_iff)
  then have "dropWhile isspace (rev s @ [x]) = dropWhile isspace (rev s) @ [x]"
    by (simp add: dropWhile_append)
  moreover have "rstrip s \<noteq> []" using False by (simp add: rstrip_empty)
  ultimately show ?thesis by (simp add: rstrip_def)
qed

lemma hash_not_space: "\<not> isspace CHR ''#''"
  by (simp add: isspace_def between_def code_def)

lemma all_space_drop: "list_all isspace (dropWhile isspace s) = list_all isspace s"
  by (induction s) auto

lemma drop_rstrip: "dropWhile isspace (rstrip s) = rstrip (dropWhile isspace s)"
proof (induction s)
  case Nil
  then show ?case by (simp add: rstrip_Nil)
next
  case (Cons x s)
  show ?case
  proof (cases "isspace x")
    case True
    show ?thesis
    proof (cases "rstrip s = []")
      case e: True
      then have "rstrip (dropWhile isspace s) = []" by (simp add: rstrip_empty all_space_drop)
      with True e show ?thesis by (simp add: rstrip_Cons)
    next
      case False
      with True Cons show ?thesis by (simp add: rstrip_Cons)
    qed
  next
    case False
    then show ?thesis by (simp add: rstrip_Cons)
  qed
qed

lemma drop_before_hash:
  "dropWhile isspace (before_hash s) = before_hash (dropWhile isspace s)"
  unfolding before_hash_def using hash_not_space by (induction s) auto

lemma all_space_before_hash: "list_all isspace s \<Longrightarrow> list_all isspace (before_hash s)"
  unfolding before_hash_def by (induction s) auto

lemma rstrip_before_hash: "rstrip (before_hash (rstrip s)) = rstrip (before_hash s)"
proof (induction s)
  case Nil
  then show ?case by (simp add: rstrip_Nil)
next
  case (Cons x s)
  show ?case
  proof (cases "x = CHR ''#''")
    case True
    then show ?thesis using hash_not_space by (simp add: rstrip_Cons before_hash_def rstrip_Nil)
  next
    case False
    show ?thesis
    proof (cases "isspace x \<and> rstrip s = []")
      case True
      then have "list_all isspace (before_hash s)"
        by (simp add: rstrip_empty all_space_before_hash)
      then have "rstrip (before_hash s) = []" by (simp add: rstrip_empty)
      with True False show ?thesis
        by (simp add: rstrip_Cons rstrip_Nil before_hash_def)
    next
      case f: False
      then have "rstrip (x # s) = x # rstrip s" by (simp add: rstrip_Cons)
      then have "rstrip (before_hash (rstrip (x # s))) = rstrip (x # before_hash (rstrip s))"
        using False by (simp add: before_hash_def)
      also have "\<dots> = rstrip (x # before_hash s)" using Cons.IH by (simp add: rstrip_Cons)
      also have "\<dots> = rstrip (before_hash (x # s))" using False by (simp add: before_hash_def)
      finally show ?thesis .
    qed
  qed
qed

lemma content_strip: "strip (before_hash (strip l)) = content l"
proof -
  have "strip (before_hash (strip l)) =
        rstrip (before_hash (rstrip (dropWhile isspace (dropWhile isspace l))))"
    by (simp only: strip_rstrip drop_before_hash drop_rstrip)
  also have "\<dots> = rstrip (before_hash (dropWhile isspace l))"
    by (simp add: rstrip_before_hash)
  also have "\<dots> = content l" by (simp add: content_def strip_rstrip drop_before_hash)
  finally show ?thesis .
qed

lemma strip_empty: "(strip s = []) = list_all isspace s"
  by (simp add: strip_rstrip rstrip_empty all_space_drop)

lemma strip_hd: "strip s \<noteq> [] \<Longrightarrow> hd (strip s) = hd (dropWhile isspace s) \<and> \<not> isspace (hd (strip s))"
proof -
  assume ne: "strip s \<noteq> []"
  then have d: "dropWhile isspace s \<noteq> []"
    by (cases "dropWhile isspace s") (simp_all only: strip_rstrip rstrip_Nil, simp_all)
  then obtain x r where xr: "dropWhile isspace s = x # r" by (cases "dropWhile isspace s") auto
  then have nx: "\<not> isspace x" using hd_dropWhile [of isspace s] d by simp
  then have "strip s = x # rstrip r" by (simp add: strip_rstrip xr rstrip_Cons)
  with xr nx show ?thesis by simp
qed

lemma drop_empty: "(dropWhile isspace s = []) = list_all isspace s"
  by (simp add: dropWhile_eq_Nil_conv list_all_iff)

lemma blank_drop:
  "blank l = (dropWhile isspace l = [] \<or> hd (dropWhile isspace l) = CHR ''#'')"
proof -
  have "blank l = list_all isspace (before_hash l)"
    by (simp add: blank_def content_def strip_empty)
  also have "\<dots> = (dropWhile isspace l = [] \<or> hd (dropWhile isspace l) = CHR ''#'')"
    unfolding before_hash_def using hash_not_space by (induction l) auto
  finally show ?thesis .
qed

lemma skip_blank:
  "((strip l \<noteq> [] \<and> hd (strip l) = CHR ''#'') \<or> strip l = []) = blank l"
proof (cases "strip l = []")
  case True
  then have "dropWhile isspace l = []" using strip_empty [of l] drop_empty [of l] by blast
  with True show ?thesis by (simp add: blank_drop)
next
  case False
  then have "dropWhile isspace l \<noteq> []" using strip_empty [of l] drop_empty [of l] by blast
  moreover have "hd (strip l) = hd (dropWhile isspace l)" using strip_hd [OF False] by simp
  ultimately show ?thesis using False by (auto simp: blank_drop)
qed

section \<open>Facts on the assembler loop\<close>

lemma step_blank: "blank l \<Longrightarrow> step st l = Inr st"
  using skip_blank [of l] by (auto simp: step_def Let_def)

lemma step_header:
  "\<not> blank l \<Longrightarrow> \<not> header_found st \<Longrightarrow>
   step st l = (if is_header (content l) then Inr (st\<lparr>header_found := True\<rparr>) else Inl MissingHeader)"
  using skip_blank [of l] by (auto simp: step_def Let_def content_strip)

lemma step_body:
  "\<not> blank l \<Longrightarrow> header_found st \<Longrightarrow>
   step st l = (case parse_instruction (content l) (counter st + 1) of
       Inl e \<Rightarrow> Inl e
     | Inr i \<Rightarrow> Inr (st\<lparr>instructions_xml := instructions_xml st @ [i], counter := counter st + 1\<rparr>))"
  using skip_blank [of l] by (auto simp: step_def Let_def content_strip blank_def)

lemma run_blanks: "list_all blank ls \<Longrightarrow> run st ls = Inr st"
  by (induction ls) (simp_all add: step_blank)

lemma run_append:
  "run st (xs @ ys) = (case run st xs of Inl e \<Rightarrow> Inl e | Inr st' \<Rightarrow> run st' ys)"
  by (induction xs arbitrary: st) (auto split: sum.splits)

lemma run_skip: "run st ls = run st (dropWhile blank ls)"
  by (induction ls) (simp_all add: step_blank)

lemma drop_blank_hd: "dropWhile blank ls = h # rest \<Longrightarrow> \<not> blank h"
  using hd_dropWhile [of blank ls] by auto

lemma run_initial:
  "run initial ls =
     (case dropWhile blank ls of
        [] \<Rightarrow> Inr initial
      | h # rest \<Rightarrow>
          if is_header (content h) then run (initial\<lparr>header_found := True\<rparr>) rest
          else Inl MissingHeader)"
proof -
  define d where "d = dropWhile blank ls"
  have r: "run initial ls = run initial d" unfolding d_def by (rule run_skip)
  have "run initial d =
     (case d of
        [] \<Rightarrow> Inr initial
      | h # rest \<Rightarrow>
          if is_header (content h) then run (initial\<lparr>header_found := True\<rparr>) rest
          else Inl MissingHeader)"
  proof (cases d)
    case Nil
    then show ?thesis by simp
  next
    case (Cons h rest)
    then have "\<not> blank h" using drop_blank_hd [of ls h rest] by (simp add: d_def)
    then have "step initial h =
        (if is_header (content h) then Inr (initial\<lparr>header_found := True\<rparr>) else Inl MissingHeader)"
      by (simp add: step_header initial_def)
    with Cons show ?thesis by simp
  qed
  with r show ?thesis by (simp only: d_def)
qed

lemma parse_order: "parse_instruction l n = Inr i \<Longrightarrow> order i = n"
  unfolding parse_instruction_def Let_def
  by (simp split: if_splits option.splits sum.splits) auto


lemma run_body:
  "header_found st \<Longrightarrow> run st ls = Inr st' \<Longrightarrow>
   header_found st' \<and>
   counter st' = counter st + int (length (filter (\<lambda>l. \<not> blank l) ls)) \<and>
   (\<exists>new. instructions_xml st' = instructions_xml st @ new \<and>
      map order new = [counter st + 1 .. counter st'])"
proof (induction ls arbitrary: st)
  case Nil
  then show ?case by simp
next
  case (Cons l ls)
  show ?case
  proof (cases "blank l")
    case True
    with Cons.prems have "run st ls = Inr st'" by (simp add: step_blank)
    from Cons.IH [OF Cons.prems(1) this] obtain new where
      h: "header_found st'" and
      c: "counter st' = counter st + int (length (filter (\<lambda>l. \<not> blank l) ls))" and
      x: "instructions_xml st' = instructions_xml st @ new" and
      o: "map order new = [counter st + 1 .. counter st']"
      by blast
    from c True have c': "counter st' = counter st + int (length (filter (\<lambda>l. \<not> blank l) (l # ls)))"
      by simp
    from h c' x o show ?thesis by blast
  next
    case False
    let ?p = "parse_instruction (content l) (counter st + 1)"
    have s: "step st l = (case ?p of
       Inl e \<Rightarrow> Inl e
     | Inr i \<Rightarrow> Inr (st\<lparr>instructions_xml := instructions_xml st @ [i], counter := counter st + 1\<rparr>))"
      using False Cons.prems(1) by (rule step_body)
    obtain i where p: "?p = Inr i"
    proof (cases ?p)
      case (Inl e)
      with s Cons.prems(2) show ?thesis by simp
    next
      case (Inr i)
      then show ?thesis by (rule that)
    qed
    let ?s = "st\<lparr>instructions_xml := instructions_xml st @ [i], counter := counter st + 1\<rparr>"
    have r: "run ?s ls = Inr st'" using s p Cons.prems(2) by simp
    have hf: "header_found ?s" using Cons.prems(1) by simp
    from Cons.IH [OF hf r] obtain new where
      h: "header_found st'" and
      c: "counter st' = counter ?s + int (length (filter (\<lambda>l. \<not> blank l) ls))" and
      x: "instructions_xml st' = instructions_xml ?s @ new" and
      o: "map order new = [counter ?s + 1 .. counter st']"
      by blast
    have c': "counter st' = counter st + int (length (filter (\<lambda>l. \<not> blank l) (l # ls)))"
      using c False by simp
    have le: "counter st + 1 \<le> counter st'" using c by simp
    have "[counter st + 1 .. counter st'] = (counter st + 1) # [counter st + 1 + 1 .. counter st']"
      using le by (rule upto_rec1)
    then have o': "map order (i # new) = [counter st + 1 .. counter st']"
      using parse_order [OF p] o by simp
    have x': "instructions_xml st' = instructions_xml st @ (i # new)" using x by simp
    from h c' x' o' show ?thesis by blast
  qed
qed

lemma header_word: "split_first_word ''.IPPcode24'' = [''.IPPcode24'']"
  by code_simp

lemma header_not_opcode: "instructions (lower ''.IPPcode24'') = None"
  by code_simp

lemma parse_header_text: "parse_instruction ''.IPPcode24'' n = Inl UnknownOpcode"
  by (simp add: parse_instruction_def header_word header_not_opcode)

lemma run_header_found:
  assumes "run initial pre = Inr st" and "\<not> list_all blank pre"
  shows "header_found st"
proof -
  define d where "d = dropWhile blank pre"
  have r: "run initial pre =
     (case d of
        [] \<Rightarrow> Inr initial
      | h # rest \<Rightarrow>
          if is_header (content h) then run (initial\<lparr>header_found := True\<rparr>) rest
          else Inl MissingHeader)"
    unfolding d_def by (rule run_initial)
  have "d \<noteq> []" using assms(2) unfolding d_def by (simp add: dropWhile_eq_Nil_conv list_all_iff)
  then obtain h rest where hr: "d = h # rest" by (cases d) auto
  with r assms(1) have "run (initial\<lparr>header_found := True\<rparr>) rest = Inr st"
    by (auto split: if_splits)
  moreover have "header_found (initial\<lparr>header_found := True\<rparr>)" by simp
  ultimately show ?thesis using run_body by blast
qed

section \<open>Words of a line and the operand tokens of the parser\<close>

lemma split_words_drop: "split_words (dropWhile isspace s) = split_words s"
  by (subst split_words.simps, subst (2) split_words.simps) simp

lemma split_words_blank: "dropWhile isspace s = [] \<Longrightarrow> split_words s = []"
  by (subst split_words.simps) simp

lemma split_words_Cons:
  "dropWhile isspace s \<noteq> [] \<Longrightarrow>
   split_words s = takeWhile (\<lambda>c. \<not> isspace c) (dropWhile isspace s) #
     split_words (dropWhile (\<lambda>c. \<not> isspace c) (dropWhile isspace s))"
  by (subst split_words.simps) (simp add: Let_def)

lemma rstrip_append_word:
  "list_all (\<lambda>c. \<not> isspace c) f \<Longrightarrow> rstrip (f @ y) = f @ rstrip y"
  by (induction f) (simp_all add: rstrip_Cons)

lemma take_word_append:
  "list_all (\<lambda>c. \<not> isspace c) f \<Longrightarrow> isspace c \<Longrightarrow>
   takeWhile (\<lambda>c. \<not> isspace c) (f @ c # y) = f \<and>
   dropWhile (\<lambda>c. \<not> isspace c) (f @ c # y) = c # y"
  by (induction f) simp_all

lemma take_word_only:
  "list_all (\<lambda>c. \<not> isspace c) f \<Longrightarrow>
   takeWhile (\<lambda>c. \<not> isspace c) f = f \<and> dropWhile (\<lambda>c. \<not> isspace c) f = []"
  by (induction f) simp_all

lemma word_all: "list_all (\<lambda>c. \<not> isspace c) (takeWhile (\<lambda>c. \<not> isspace c) x)"
  by (induction x) simp_all

lemma re_split_rstrip:
  "x \<noteq> [] \<Longrightarrow> \<not> isspace (hd x) \<Longrightarrow> re_split_ws (rstrip x) = split_words x"
proof (induction x rule: length_induct)
  case (1 x)
  let ?f = "takeWhile (\<lambda>c. \<not> isspace c) x"
  let ?y = "dropWhile (\<lambda>c. \<not> isspace c) x"
  have x: "x = ?f @ ?y" by simp
  have f: "list_all (\<lambda>c. \<not> isspace c) ?f" by (rule word_all)
  have dx: "dropWhile isspace x = x" using "1.prems" by (cases x) simp_all
  have w: "split_words x = ?f # split_words ?y"
    using split_words_Cons [of x] "1.prems"(1) by (simp only: dx) simp
  have rs: "rstrip x = ?f @ rstrip ?y"
    using rstrip_append_word [OF f, of ?y] by (simp only: takeWhile_dropWhile_id)
  show ?case
  proof (cases "rstrip ?y = []")
    case True
    then have "list_all isspace ?y" by (simp add: rstrip_empty)
    then have "dropWhile isspace ?y = []" by (simp only: drop_empty)
    then have "split_words ?y = []" by (rule split_words_blank)
    moreover have "re_split_ws ?f = [?f]"
      by (subst re_split_ws.simps) (simp add: take_word_only [OF f])
    ultimately show ?thesis using rs True w by simp
  next
    case False
    have yne: "?y \<noteq> []"
    proof
      assume "?y = []"
      then have "rstrip ?y = []" by (simp only: rstrip_Nil)
      with False show False by contradiction
    qed
    then obtain c y' where cy: "?y = c # y'" by (cases ?y) auto
    have sc: "isspace c" using hd_dropWhile [of "\<lambda>c. \<not> isspace c" x] yne cy by simp
    have ry: "rstrip ?y = c # rstrip y'" using False cy by (simp add: rstrip_Cons split: if_splits)
    let ?z = "dropWhile isspace y'"
    have zy: "?z = dropWhile isspace ?y" using cy sc by simp
    have "\<not> list_all isspace ?y" using False by (simp add: rstrip_empty)
    then have zne: "?z \<noteq> []" unfolding zy by (simp only: drop_empty) simp
    have zh: "\<not> isspace (hd ?z)" using hd_dropWhile [of isspace y'] zne by simp
    have "length ?z \<le> length y'" by (rule length_dropWhile_le)
    also have "\<dots> < length ?y" using cy by simp
    also have "\<dots> \<le> length x" by (rule length_dropWhile_le)
    finally have zl: "length ?z < length x" .
    have ih: "re_split_ws (rstrip ?z) = split_words ?z" using "1.IH" zl zne zh by blast
    have "re_split_ws (?f @ c # rstrip y') = ?f # re_split_ws (dropWhile isspace (rstrip y'))"
      by (subst re_split_ws.simps) (simp add: take_word_append [OF f sc] Let_def)
    also have "dropWhile isspace (rstrip y') = rstrip ?z" by (rule drop_rstrip)
    finally have "re_split_ws (rstrip x) = ?f # split_words ?z" using rs ry ih by simp
    also have "split_words ?z = split_words ?y" unfolding zy by (rule split_words_drop)
    finally show ?thesis using w by simp
  qed
qed

lemma first_word_words:
  fixes s :: string
  defines "d \<equiv> dropWhile isspace s"
  defines "r \<equiv> dropWhile isspace (dropWhile (\<lambda>c. \<not> isspace c) d)"
  shows "split_first_word s =
           (if d = [] then [] else if r = [] then [takeWhile (\<lambda>c. \<not> isspace c) d]
            else [takeWhile (\<lambda>c. \<not> isspace c) d, r])"
    and "split_words s =
           (if d = [] then []
            else takeWhile (\<lambda>c. \<not> isspace c) d # split_words r)"
proof -
  show "split_first_word s =
           (if d = [] then [] else if r = [] then [takeWhile (\<lambda>c. \<not> isspace c) d]
            else [takeWhile (\<lambda>c. \<not> isspace c) d, r])"
    unfolding split_first_word_def Let_def d_def r_def ..
  have "split_words s =
           (if d = [] then []
            else takeWhile (\<lambda>c. \<not> isspace c) d # split_words (dropWhile (\<lambda>c. \<not> isspace c) d))"
    unfolding d_def by (subst split_words.simps) (simp only: Let_def)
  also have "split_words (dropWhile (\<lambda>c. \<not> isspace c) d) = split_words r"
    unfolding r_def by (simp only: split_words_drop)
  finally show "split_words s =
           (if d = [] then []
            else takeWhile (\<lambda>c. \<not> isspace c) d # split_words r)" .
qed


lemma operand_tokens:
  assumes "split_words s = w # toks"
  shows "(let ws = split_first_word s;
              operands_raw = (if length ws > 1 then tl ws else [[]])
          in if operands_raw = [] \<or> hd operands_raw = [] then []
             else re_split_ws (strip (hd operands_raw))) = toks"
    and "hd (split_first_word s) = w" and "\<not> length (split_first_word s) < 1"
proof -
  define d where "d = dropWhile isspace s"
  define r where "r = dropWhile isspace (dropWhile (\<lambda>c. \<not> isspace c) d)"
  have sf: "split_first_word s =
           (if d = [] then [] else if r = [] then [takeWhile (\<lambda>c. \<not> isspace c) d]
            else [takeWhile (\<lambda>c. \<not> isspace c) d, r])"
    unfolding d_def r_def by (rule first_word_words(1))
  have sw: "split_words s =
           (if d = [] then []
            else takeWhile (\<lambda>c. \<not> isspace c) d # split_words r)"
    unfolding d_def r_def by (rule first_word_words(2))
  have ne: "d \<noteq> []" using sw assms by (cases "d = []") simp_all
  from sw ne assms have w: "w = takeWhile (\<lambda>c. \<not> isspace c) d" and t: "toks = split_words r"
    by simp_all
  from sf ne w have sf': "split_first_word s = (if r = [] then [w] else [w, r])" by simp
  show "hd (split_first_word s) = w" "\<not> length (split_first_word s) < 1"
    using sf' by simp_all
  show "(let ws = split_first_word s;
              operands_raw = (if length ws > 1 then tl ws else [[]])
          in if operands_raw = [] \<or> hd operands_raw = [] then []
             else re_split_ws (strip (hd operands_raw))) = toks"
  proof (cases "r = []")
    case True
    have "split_words [] = []" by (rule split_words_blank) simp
    with True t have "toks = []" by simp
    with True sf' show ?thesis by (simp add: Let_def)
  next
    case False
    have h: "\<not> isspace (hd r)"
      using False hd_dropWhile [of isspace "dropWhile (\<lambda>c. \<not> isspace c) d"]
      unfolding r_def by blast
    have "dropWhile isspace r = r" using False h by (cases r) simp_all
    then have "strip r = rstrip r" by (simp only: strip_rstrip)
    then have "re_split_ws (strip r) = toks"
      using re_split_rstrip [OF False h] t by simp
    with False sf' show ?thesis by (simp add: Let_def)
  qed
qed


lemma parse_instruction_unfold:
  "parse_instruction instr n =
     (if length (split_first_word instr) < 1 then Inl UnknownOpcode
      else case instructions (lower (hd (split_first_word instr))) of
             None \<Rightarrow> Inl UnknownOpcode
           | Some sig \<Rightarrow>
               if length (let ws = split_first_word instr;
                              operands_raw = (if length ws > 1 then tl ws else [[]])
                          in if operands_raw = [] \<or> hd operands_raw = [] then []
                             else re_split_ws (strip (hd operands_raw))) \<noteq> length sig
               then Inl ArityMismatch
               else (case parse_operands
                       (let ws = split_first_word instr;
                            operands_raw = (if length ws > 1 then tl ws else [[]])
                        in if operands_raw = [] \<or> hd operands_raw = [] then []
                           else re_split_ws (strip (hd operands_raw))) sig of
                       Inl e \<Rightarrow> Inl e
                     | Inr as \<Rightarrow>
                         Inr \<lparr>order = n, opcode = upper (lower (hd (split_first_word instr))),
                              args = as\<rparr>))"
  unfolding parse_instruction_def Let_def ..

lemma parse_instruction_words:
  assumes "split_words line = w # toks"
  shows "parse_instruction line n =
     (case instructions (lower w) of
        None \<Rightarrow> Inl UnknownOpcode
      | Some sig \<Rightarrow>
          if length toks \<noteq> length sig then Inl ArityMismatch
          else (case parse_operands toks sig of
                  Inl e \<Rightarrow> Inl e
                | Inr as \<Rightarrow> Inr \<lparr>order = n, opcode = upper (lower w), args = as\<rparr>))"
  unfolding parse_instruction_unfold operand_tokens(1,2) [OF assms]
  using operand_tokens(3) [OF assms] by (simp only: if_False)

lemma parse_instruction_no_words:
  assumes "split_words line = []"
  shows "parse_instruction line n = Inl UnknownOpcode"
proof -
  have "dropWhile isspace line = []"
    using assms first_word_words(2) [of line] by (simp split: if_splits)
  then have "split_first_word line = []" using first_word_words(1) [of line] by simp
  then show ?thesis by (simp add: parse_instruction_def)
qed

lemma determine_error:
  "determine_operand_type_and_value t e = Inl x \<Longrightarrow> x = InvalidOperandSyntax"
  by (auto simp: determine_operand_type_and_value_def split: if_splits)

lemma parse_operands_error:
  "parse_operands ts es = Inl x \<Longrightarrow> x = InvalidOperandSyntax \<or> x = OperandTypeMismatch"
proof (induction ts es rule: parse_operands.induct)
  case (1 expected)
  then show ?case by simp
next
  case (2 operand operands)
  then show ?case by simp
next
  case (3 operand operands expected_type expected)
  show ?case
  proof (cases "determine_operand_type_and_value operand expected_type")
    case (Inl e)
    with "3.prems" determine_error [OF Inl] show ?thesis by simp
  next
    case (Inr p)
    obtain k v where p: "p = (k, v)" by (cases p)
    show ?thesis
    proof (cases "validate_operand_type expected_type k operand")
      case False
      with "3.prems" Inr p show ?thesis by simp
    next
      case True
      with "3.prems" Inr p have "\<exists>y. parse_operands operands expected = Inl x"
        by (auto split: sum.splits)
      with "3.IH" [OF Inr p [symmetric]] True show ?thesis by auto
    qed
  qed
qed

lemma parse_operands_append:
  "length a = length ea \<Longrightarrow>
   parse_operands (a @ b) (ea @ eb) =
     (case parse_operands a ea of
        Inl e \<Rightarrow> Inl e
      | Inr x \<Rightarrow> (case parse_operands b eb of Inl e \<Rightarrow> Inl e | Inr y \<Rightarrow> Inr (x @ y)))"
proof (induction a ea rule: list_induct2)
  case Nil
  then show ?case by (simp split: sum.splits)
next
  case (Cons t a e ea)
  then show ?case by (simp split: sum.splits prod.splits)
qed

lemma type_in_symbol_slot:
  "determine_operand_type_and_value t ''s'' = Inr (''type'', v) \<Longrightarrow>
   parse_operands (t # b) (''s'' # eb) = Inl OperandTypeMismatch"
  by (simp add: validate_operand_type_def)

lemma symbol_slot_type_outcome:
  assumes "split_words line = w # toks" and "instructions (lower w) = Some sig"
    and "length toks = length sig" and "i < length toks" and "sig ! i = ''s''"
    and "determine_operand_type_and_value (toks ! i) ''s'' = Inr (''type'', v)"
  shows "parse_instruction line n =
     (case parse_operands (take i toks) (take i sig) of
        Inl e \<Rightarrow> Inl e
      | Inr as \<Rightarrow> Inl OperandTypeMismatch)"
proof -
  have t: "toks = take i toks @ toks ! i # drop (Suc i) toks"
    using assms(4) by (rule id_take_nth_drop)
  have s: "sig = take i sig @ ''s'' # drop (Suc i) sig"
    using assms(3,4,5) id_take_nth_drop [of i sig] by simp
  have l: "length (take i toks) = length (take i sig)" using assms(3) by simp
  have "parse_operands toks sig =
     parse_operands (take i toks @ toks ! i # drop (Suc i) toks)
       (take i sig @ ''s'' # drop (Suc i) sig)"
    using t s by simp
  also have "\<dots> =
     (case parse_operands (take i toks) (take i sig) of
        Inl e \<Rightarrow> Inl e
      | Inr as \<Rightarrow> Inl OperandTypeMismatch)"
    unfolding parse_operands_append [OF l] type_in_symbol_slot [OF assms(6)]
    by (simp split: sum.splits)
  finally have p: "parse_operands toks sig =
     (case parse_operands (take i toks) (take i sig) of
        Inl e \<Rightarrow> Inl e
      | Inr as \<Rightarrow> Inl OperandTypeMismatch)" .
  have "parse_instruction line n =
     (case parse_operands toks sig of
        Inl e \<Rightarrow> Inl e
      | Inr as \<Rightarrow> Inr \<lparr>order = n, opcode = upper (lower w), args = as\<rparr>)"
    using assms(2,3) by (simp add: parse_instruction_words [OF assms(1)])
  then show ?thesis unfolding p by (simp split: sum.splits)
qed

section \<open>Claims on the lexical classifiers\<close>

text \<open>
  C1 (as stated): a token \<open>int@V\<close> is accepted by \<open>is_symb\<close> exactly when \<open>V\<close> has one of
  the four integer forms, the base prefix being \<open>0x\<close> or \<open>0X\<close>, \<open>0o\<close> or \<open>0O\<close>; so
  \<open>int@-0X1A\<close> and \<open>int@-0O17\<close> are accepted. They have the claimed form and are rejected.
\<close>

theorem int_upper_prefix_rejected:
  "claimed_int_literal ''-0X1A'' \<and> \<not> is_symb ''int@-0X1A'' \<and>
   claimed_int_literal ''-0O17'' \<and> \<not> is_symb ''int@-0O17''"
  by code_simp

text \<open>
  C1 (amended): a token \<open>int@V\<close> is accepted by \<open>is_symb\<close> exactly when \<open>V\<close>, without the
  newline that may end it, has one of the four forms with a lower-case base prefix: an
  optional \<open>-\<close> and decimal digits; an optional \<open>-\<close>, \<open>0x\<close> and hexadecimal digits; an
  optional \<open>-\<close>, \<open>0o\<close> and octal digits; an optional \<open>+\<close> and decimal digits.
\<close>

theorem is_symb_int_literal: "is_symb (''int@'' @ v) = int_literal (chomp v)"
  using split_at_append [of "''int''" v] by (simp add: is_symb_alt)

theorem is_symb_int_literal_witness:
  "is_symb ''int@-0x1A'' \<and> is_symb ''int@+42'' \<and> \<not> is_symb ''int@+0x1A''"
  using is_symb_int_literal [of "''-0x1A''"] is_symb_int_literal [of "''+42''"]
    is_symb_int_literal [of "''+0x1A''"]
  by (simp add: chomp_def int_literal_def digits_def after_sign_def isdecimal_def hex_digit_def
      oct_digit_def between_def code_def)

text \<open>
  C9 (as stated): \<open>is_var\<close> holds exactly when the token is a frame \<open>GF\<close>, \<open>TF\<close> or \<open>LF\<close>, the
  \<open>@\<close>, and a name whose later characters are ASCII letters or digits or from the symbol
  set, no other character being permitted. The token \<open>GF@a\<close> followed by U+00E9 (e with
  acute accent, a non-ASCII letter) is accepted by \<open>is_var\<close> and is not of that form.
\<close>

theorem is_var_latin1_letter:
  "is_var (''GF@a'' @ [CHR 0xE9]) \<and> \<not> spec_is_var (''GF@a'' @ [CHR 0xE9])"
  by code_simp

text \<open>
  C9 (amended): \<open>is_var\<close> holds exactly when the token starts with \<open>GF@\<close>, \<open>TF@\<close> or \<open>LF@\<close>
  and the rest, without the newline that may end it, is a name whose first character is
  an ASCII letter, the underscore or one of \<open>- $ & % * ! ?\<close>, and whose later characters
  are matched by \<open>\w\<close> (letters and digits, the non-ASCII ones included, and the
  underscore) or are from that symbol set.
\<close>

theorem is_var_shape:
  "is_var t = (take 3 t \<in> set [''GF@'', ''TF@'', ''LF@''] \<and> ident_shape (chomp (drop 3 t)))"
proof (cases "CHR ''@'' \<in> set t")
  case False
  then have "\<not> is_var t" by (simp add: is_var_alt)
  moreover have "take 3 t \<notin> set [''GF@'', ''TF@'', ''LF@'']" using False prefix_has_at by blast
  ultimately show ?thesis by simp
next
  case True
  show ?thesis
  proof (cases "fst (split_at t) \<in> set [''GF'', ''TF'', ''LF'']")
    case f: False
    then have "\<not> is_var t" by (simp add: is_var_alt)
    moreover have "take 3 t \<notin> set [''GF@'', ''TF@'', ''LF@'']" using f frame_prefix(1) [OF True] by simp
    ultimately show ?thesis by simp
  next
    case f: True
    then have "is_var t = re_match ident_rx (snd (split_at t))"
      using True by (simp add: is_var_alt)
    also have "\<dots> = ident_shape (chomp (drop 3 t))"
      using frame_prefix(2) [OF True f] by (simp add: re_match_ident)
    finally show ?thesis using f frame_prefix(1) [OF True] by simp
  qed
qed

theorem is_var_shape_witness:
  "is_var ''GF@x'' \<and> \<not> is_var ''GF@1x''"
  using is_var_shape [of "''GF@x''"] is_var_shape [of "''GF@1x''"]
  by (simp add: chomp_def ident_shape_def ident_first_def ident_rest_def ascii_letter_def symbol_char_def between_def code_def)

text \<open>
  C2 (as stated): a token with more than one \<open>@\<close> is never accepted by \<open>is_symb\<close>; so
  \<open>string@a@b\<close> is not a symbol. It has two \<open>@\<close> and is accepted.
\<close>

theorem string_with_second_at_accepted:
  "1 < count_list ''string@a@b'' CHR ''@'' \<and> is_symb ''string@a@b''"
  by code_simp

text \<open>
  C2 (amended): \<open>is_symb\<close> splits a token at its first \<open>@\<close> only. A token with more than
  one \<open>@\<close> is rejected unless it starts with \<open>string@\<close>; it is accepted exactly when it
  does and what follows \<open>string@\<close> matches the string pattern, in which a further \<open>@\<close> is
  an ordinary character.
\<close>

theorem is_symb_two_ats:
  assumes "1 < count_list t CHR ''@''"
  shows "is_symb t = (take 7 t = ''string@'' \<and> re_match string_rx (drop 7 t))"
proof -
  have m: "CHR ''@'' \<in> set t" using assms by (simp add: count_at_pos)
  obtain f v where fv: "split_at t = (f, v)" by (cases "split_at t")
  with split_at_join [OF m] have t: "t = f @ CHR ''@'' # v" and nf: "CHR ''@'' \<notin> set f"
    by simp_all
  have "count_list t CHR ''@'' = Suc (count_list v CHR ''@'')"
    using nf by (subst t) (simp add: count_list_append)
  with assms have mv: "CHR ''@'' \<in> set v" by (simp add: count_at_pos)
  have "v \<noteq> ''nil''" "v \<notin> set [''true'', ''false'']" using mv by auto
  moreover have "\<not> int_literal (chomp v)" using mv chomp_keeps int_literal_no_at by fastforce
  ultimately have "is_symb t = (f = ''string'' \<and> re_match string_rx v)"
    using m fv by (simp add: is_symb_alt)
  also have "\<dots> = (take 7 t = ''string@'' \<and> re_match string_rx (drop 7 t))"
  proof -
    have n: "Suc (length ''string'') = 7" and ns: "CHR ''@'' \<notin> set ''string''" by simp_all
    note p = split_prefix(1) [OF m ns, unfolded n] and d = split_prefix(2) [OF m ns, unfolded n]
    show ?thesis
    proof (cases "f = ''string''")
      case True
      with fv p d have "take 7 t = ''string@''" "v = drop 7 t" by simp_all
      with True show ?thesis by simp
    next
      case False
      with fv p have "take 7 t \<noteq> ''string@''" by simp
      with False show ?thesis by simp
    qed
  qed
  finally show ?thesis .
qed

theorem is_symb_two_ats_witness:
  "1 < count_list ''int@1@2'' CHR ''@'' \<and> \<not> is_symb ''int@1@2''"
  using is_symb_two_ats [of "''int@1@2''"] by simp

section \<open>Claims on the operand resolver\<close>

text \<open>
  C4 (as stated): every token that resolves against Symbol to kind \<open>k\<close> and value \<open>v\<close>,
  the tokens resolved to kind Var included, is rebuilt as \<open>k@v\<close> into a token that resolves
  to the same kind and value. The variable \<open>GF@x\<close> resolves to kind \<open>var\<close> and value
  \<open>GF@x\<close>; the rebuilt token \<open>var@GF@x\<close> does not resolve.
\<close>

theorem round_trip_fails_for_var:
  "determine_operand_type_and_value ''GF@x'' ''s'' = Inr (''var'', ''GF@x'') \<and>
   reconstruct ''var'' ''GF@x'' = ''var@GF@x'' \<and>
   determine_operand_type_and_value (reconstruct ''var'' ''GF@x'') ''s'' = Inl InvalidOperandSyntax"
  by code_simp

text \<open>
  C4 (amended): when a token resolves against Symbol to kind \<open>k\<close> and value \<open>v\<close> and \<open>k\<close>
  is one of the literal kinds \<open>int\<close>, \<open>bool\<close>, \<open>string\<close>, \<open>nil\<close>, the rebuilt token \<open>k@v\<close>
  resolves against Symbol to the same kind and value. When \<open>k\<close> is \<open>var\<close> or \<open>type\<close>, the
  rebuilt token does not resolve: it fails with InvalidOperandSyntax.
\<close>

theorem round_trip_literals:
  assumes "determine_operand_type_and_value t ''s'' = Inr (k, v)"
  shows "determine_operand_type_and_value (reconstruct k v) ''s'' =
     (if k \<in> set [''var'', ''type''] then Inl InvalidOperandSyntax else Inr (k, v))"
proof (cases "k \<in> set [''var'', ''type'']")
  case True
  then have "reconstruct k v = k @ CHR ''@'' # v" by (auto simp: reconstruct_def lower_keywords)
  with True show ?thesis using unresolvable_prefix [OF True, of v] by simp
next
  case False
  with assms have s: "is_symb t" and sp: "split_at t = (k, v)"
    by (auto simp: determine_symbol split: if_splits)
  from s have m: "CHR ''@'' \<in> set t" by (simp add: is_symb_alt)
  from is_symb_kind [OF s] sp have kk: "k \<in> set [''nil'', ''int'', ''bool'', ''string'']" by simp
  then have "lower k = k" by (auto simp: lower_keywords)
  moreover from split_at_join [OF m] sp have "t = k @ CHR ''@'' # v" by simp
  ultimately have "reconstruct k v = t" by (simp add: reconstruct_def)
  with assms False show ?thesis by simp
qed

theorem round_trip_literals_witness:
  "determine_operand_type_and_value ''int@42'' ''s'' = Inr (''int'', ''42'') \<and>
   determine_operand_type_and_value (reconstruct ''int'' ''42'') ''s'' = Inr (''int'', ''42'')"
proof -
  have d: "determine_operand_type_and_value ''int@42'' ''s'' = Inr (''int'', ''42'')"
    by code_simp
  from round_trip_literals [OF d] d show ?thesis by simp
qed

section \<open>Claims on the instruction parser\<close>

text \<open>
  C6: for a line whose first word, lower-cased, is in the signature table with a
  signature of length \<open>k\<close>, \<open>parse_instruction\<close> fails with ArityMismatch exactly when the
  number of operand tokens, the words after the first, differs from \<open>k\<close>; so \<open>PUSHS\<close>
  alone fails, and so does \<open>break\<close> with an operand.
\<close>

theorem arity_exact:
  assumes "split_words line = w # toks" and "instructions (lower w) = Some sig"
  shows "(parse_instruction line n = Inl ArityMismatch) = (length toks \<noteq> length sig)"
proof (cases "length toks = length sig")
  case False
  then show ?thesis using assms(2) by (simp add: parse_instruction_words [OF assms(1)])
next
  case True
  have "parse_instruction line n \<noteq> Inl ArityMismatch"
  proof
    assume a: "parse_instruction line n = Inl ArityMismatch"
    then have "parse_operands toks sig = Inl ArityMismatch"
      using assms(2) True by (simp add: parse_instruction_words [OF assms(1)] split: sum.splits)
    from parse_operands_error [OF this] show False by simp
  qed
  with True show ?thesis by simp
qed

theorem arity_exact_witness:
  "parse_instruction ''PUSHS'' 1 = Inl ArityMismatch \<and>
   parse_instruction ''break GF@x'' 1 = Inl ArityMismatch \<and>
   parse_instruction ''PUSHS int@1'' 1 \<noteq> Inl ArityMismatch"
proof -
  have a: "split_words ''PUSHS'' = [''PUSHS'']" "instructions (lower ''PUSHS'') = Some [''s'']"
    and b: "split_words ''break GF@x'' = [''break'', ''GF@x'']"
      "instructions (lower ''break'') = Some []"
    and c: "split_words ''PUSHS int@1'' = [''PUSHS'', ''int@1'']"
    by code_simp+
  from arity_exact [OF a, of 1] arity_exact [OF b, of 1] arity_exact [OF c a(2), of 1]
  show ?thesis by simp
qed

text \<open>
  C8: when the parser resolves the token at an operand position that expects a Symbol
  (the opcode is known, the arity is right and every operand before the position was
  accepted) and the token resolves to kind Type, as the bare token \<open>int\<close> does, the parser
  fails with OperandTypeMismatch: a Type-resolved token is not coerced into a symbol.
\<close>

theorem type_token_in_symbol_slot:
  assumes "split_words line = w # toks" and "instructions (lower w) = Some sig"
    and "length toks = length sig" and "i < length toks" and "sig ! i = ''s''"
    and "determine_operand_type_and_value (toks ! i) ''s'' = Inr (''type'', v)"
    and "parse_operands (take i toks) (take i sig) = Inr as"
  shows "parse_instruction line n = Inl OperandTypeMismatch"
  using symbol_slot_type_outcome [OF assms(1-6), of n] assms(7) by simp

theorem type_token_in_symbol_slot_witness:
  "parse_instruction ''WRITE int'' 1 = Inl OperandTypeMismatch \<and>
   parse_instruction ''MOVE GF@x string'' 1 = Inl OperandTypeMismatch"
proof -
  have a: "split_words ''WRITE int'' = [''WRITE'', ''int'']"
      "instructions (lower ''WRITE'') = Some [''s'']"
      "length [''int''] = length [''s'']" "0 < length [''int'']" "[''s''] ! 0 = ''s''"
      "determine_operand_type_and_value ([''int''] ! 0) ''s'' = Inr (''type'', ''int'')"
      "parse_operands (take 0 [''int'']) (take 0 [''s'']) = Inr []"
    by code_simp+
  have b: "split_words ''MOVE GF@x string'' = [''MOVE'', ''GF@x'', ''string'']"
      "instructions (lower ''MOVE'') = Some [''v'', ''s'']"
      "length [''GF@x'', ''string''] = length [''v'', ''s'']" "1 < length [''GF@x'', ''string'']"
      "[''v'', ''s''] ! 1 = ''s''"
      "determine_operand_type_and_value ([''GF@x'', ''string''] ! 1) ''s'' = Inr (''type'', ''string'')"
      "parse_operands (take 1 [''GF@x'', ''string'']) (take 1 [''v'', ''s'']) =
         Inr [(''var'', ''GF@x'')]"
    by code_simp+
  from type_token_in_symbol_slot [OF a, of 1] type_token_in_symbol_slot [OF b, of 1]
  show ?thesis by simp
qed

section \<open>Concrete runs\<close>

text \<open>
  C3 (as stated): on the header line \<open>.IPPcode24\<close> followed by \<open>WRITE label@foo\<close> the
  token \<open>label@foo\<close> resolves to kind Label and the run fails with OperandTypeMismatch.
  It does not: the run does not end in OperandTypeMismatch.
\<close>

theorem write_label_not_type_mismatch:
  "assemble [''.IPPcode24'', ''WRITE label@foo''] \<noteq> Inl OperandTypeMismatch"
  by code_simp

text \<open>
  C3 (amended): on that input the token \<open>label@foo\<close> is not a type keyword, not a variable
  and not a symbol, so resolving it against Symbol fails with InvalidOperandSyntax and
  yields no kind; the run fails with InvalidOperandSyntax.
\<close>

theorem write_label_invalid_operand:
  "\<not> is_type ''label@foo'' \<and> \<not> is_var ''label@foo'' \<and> \<not> is_symb ''label@foo'' \<and>
   determine_operand_type_and_value ''label@foo'' ''s'' = Inl InvalidOperandSyntax \<and>
   assemble [''.IPPcode24'', ''WRITE label@foo''] = Inl InvalidOperandSyntax"
  by code_simp

section \<open>Claims on the program assembler\<close>

text \<open>
  C5: when \<open>assemble\<close> succeeds, the \<open>order\<close> values of the instructions it returns are
  exactly 1, 2, ..., N in this order, where N is the number of lines after the header
  line whose content is not empty; the header line (the first line that is not blank)
  and blank or comment-only lines are not counted.
\<close>

theorem orders_consecutive:
  assumes "assemble lines = Inr recs"
  shows "map order recs =
     [1 .. int (length (filter (\<lambda>l. \<not> blank l) (tl (dropWhile blank lines))))]"
proof -
  define d where "d = dropWhile blank lines"
  have r: "run initial lines =
     (case d of
        [] \<Rightarrow> Inr initial
      | h # rest \<Rightarrow>
          if is_header (content h) then run (initial\<lparr>header_found := True\<rparr>) rest
          else Inl MissingHeader)"
    unfolding d_def by (rule run_initial)
  from assms obtain st where st: "run initial lines = Inr st" and hf: "header_found st"
    and recs: "recs = instructions_xml st"
    by (auto simp: assemble_def split: sum.splits if_splits)
  have "map order recs = [1 .. int (length (filter (\<lambda>l. \<not> blank l) (tl d)))]"
  proof (cases d)
    case Nil
    with r st have "st = initial" by simp
    with hf show ?thesis by (simp add: initial_def)
  next
    case (Cons h rest)
    let ?s = "initial\<lparr>header_found := True\<rparr>"
    from st r Cons have rr: "run ?s rest = Inr st" by (auto split: if_splits)
    have "header_found ?s" by simp
    from run_body [OF this rr] obtain new where
      "counter st = counter ?s + int (length (filter (\<lambda>l. \<not> blank l) rest))"
      "instructions_xml st = instructions_xml ?s @ new"
      "map order new = [counter ?s + 1 .. counter st]"
      by blast
    with recs Cons show ?thesis by (simp add: initial_def)
  qed
  then show ?thesis by (simp only: d_def)
qed

theorem orders_consecutive_witness:
  "assemble [''# demo'', ''.IPPcode24 # header'', '' # c'', ''ADD GF@x GF@y GF@z # sum'', '''',
      ''break''] =
     Inr [\<lparr>order = 1, opcode = ''ADD'',
            args = [(''var'', ''GF@x''), (''var'', ''GF@y''), (''var'', ''GF@z'')]\<rparr>,
          \<lparr>order = 2, opcode = ''BREAK'', args = []\<rparr>] \<and>
   [1 .. int (length (filter (\<lambda>l. \<not> blank l) (tl (dropWhile blank
      [''# demo'', ''.IPPcode24 # header'', '' # c'', ''ADD GF@x GF@y GF@z # sum'', '''',
       ''break'']))))] = [1, 2]"
proof -
  let ?L = "[''# demo'', ''.IPPcode24 # header'', '' # c'', ''ADD GF@x GF@y GF@z # sum'', '''',
      ''break'']"
  let ?R = "[\<lparr>order = 1, opcode = ''ADD'',
            args = [(''var'', ''GF@x''), (''var'', ''GF@y''), (''var'', ''GF@z'')]\<rparr>,
          \<lparr>order = 2, opcode = ''BREAK'', args = []\<rparr>]"
  have a: "assemble ?L = Inr ?R" by code_simp
  from orders_consecutive [OF a] a show ?thesis by simp
qed

text \<open>
  C7: when every line is blank or comment-only (the empty input included), or the first
  line that is not is no header, \<open>assemble\<close> fails with MissingHeader; when the first
  line that is not blank is a header and all lines after it are blank or comment-only,
  \<open>assemble\<close> succeeds with the empty list of instructions.
\<close>

theorem header_rule:
  "(dropWhile blank lines = [] \<or> \<not> is_header (content (hd (dropWhile blank lines)))
      \<longrightarrow> assemble lines = Inl MissingHeader) \<and>
   (dropWhile blank lines \<noteq> [] \<and> is_header (content (hd (dropWhile blank lines))) \<and>
      list_all blank (tl (dropWhile blank lines))
      \<longrightarrow> assemble lines = Inr [])"
proof -
  define d where "d = dropWhile blank lines"
  have r: "run initial lines =
     (case d of
        [] \<Rightarrow> Inr initial
      | h # rest \<Rightarrow>
          if is_header (content h) then run (initial\<lparr>header_found := True\<rparr>) rest
          else Inl MissingHeader)"
    unfolding d_def by (rule run_initial)
  have "(d = [] \<or> \<not> is_header (content (hd d)) \<longrightarrow> assemble lines = Inl MissingHeader) \<and>
        (d \<noteq> [] \<and> is_header (content (hd d)) \<and> list_all blank (tl d)
           \<longrightarrow> assemble lines = Inr [])"
  proof (cases d)
    case Nil
    with r have "run initial lines = Inr initial" by simp
    with Nil show ?thesis by (simp add: assemble_def initial_def)
  next
    case (Cons h rest)
    show ?thesis
    proof (cases "is_header (content h)")
      case True
      have "list_all blank rest \<Longrightarrow> assemble lines = Inr []"
      proof -
        assume "list_all blank rest"
        then have "run initial lines = Inr (initial\<lparr>header_found := True\<rparr>)"
          using Cons True r by (simp add: run_blanks)
        then show ?thesis by (simp add: assemble_def initial_def)
      qed
      with Cons True show ?thesis by simp
    next
      case False
      then have "run initial lines = Inl MissingHeader" using Cons r by simp
      with Cons False show ?thesis by (simp add: assemble_def)
    qed
  qed
  then show ?thesis by (simp only: d_def)
qed

theorem header_rule_witness:
  "assemble [''MOVE GF@x int@42''] = Inl MissingHeader \<and>
   assemble ['' # only a comment'', ''''] = Inl MissingHeader \<and>
   assemble [''# program'', '' .ippCODE24 # header'', '''', ''   # end''] = Inr []"
proof -
  have a: "\<not> is_header (content (hd (dropWhile blank [''MOVE GF@x int@42''])))"
    by code_simp
  have b: "dropWhile blank ['' # only a comment'', ''''] = []"
    by code_simp
  have c: "dropWhile blank [''# program'', '' .ippCODE24 # header'', '''', ''   # end''] \<noteq> []"
    "is_header (content (hd (dropWhile blank
        [''# program'', '' .ippCODE24 # header'', '''', ''   # end''])))"
    "list_all blank (tl (dropWhile blank
        [''# program'', '' .ippCODE24 # header'', '''', ''   # end'']))"
    by code_simp+
  show ?thesis
    using header_rule [of "[''MOVE GF@x int@42'']"] header_rule [of "['' # only a comment'', '''']"]
      header_rule [of "[''# program'', '' .ippCODE24 # header'', '''', ''   # end'']"] a b c
    by blast
qed

text \<open>
  C10: the header is consumed once. When the loop has accepted the header and reads a
  further line whose content is \<open>.IPPcode24\<close>, that line is handed to the instruction
  parser as an ordinary instruction line, the parser fails with UnknownOpcode, since
  \<open>.ippcode24\<close> is not in the signature table, and so does the run.
\<close>

theorem second_header_is_instruction:
  assumes "run initial pre = Inr st" and "header_found st" and "content l = ''.IPPcode24''"
  shows "step st l =
           (case parse_instruction (content l) (counter st + 1) of
              Inl e \<Rightarrow> Inl e
            | Inr i \<Rightarrow>
                Inr (st\<lparr>instructions_xml := instructions_xml st @ [i],
                        counter := counter st + 1\<rparr>)) \<and>
         parse_instruction (content l) (counter st + 1) = Inl UnknownOpcode \<and>
         assemble (pre @ l # post) = Inl UnknownOpcode"
proof -
  have nb: "\<not> blank l" using assms(3) by (simp add: blank_def)
  have s: "step st l =
           (case parse_instruction (content l) (counter st + 1) of
              Inl e \<Rightarrow> Inl e
            | Inr i \<Rightarrow>
                Inr (st\<lparr>instructions_xml := instructions_xml st @ [i],
                        counter := counter st + 1\<rparr>))"
    using nb assms(2) by (rule step_body)
  have p: "parse_instruction (content l) (counter st + 1) = Inl UnknownOpcode"
    using assms(3) by (simp add: parse_header_text)
  from s p have "step st l = Inl UnknownOpcode" by simp
  then have "assemble (pre @ l # post) = Inl UnknownOpcode"
    using assms(1) by (simp add: assemble_def run_append)
  with s p show ?thesis by blast
qed

theorem second_header_is_instruction_witness:
  "assemble [''.IPPcode24'', ''BREAK'', '' .IPPcode24 # again'', ''BREAK''] = Inl UnknownOpcode"
proof -
  have a: "run initial [''.IPPcode24'', ''BREAK''] =
      Inr \<lparr>header_found = True,
        instructions_xml = [\<lparr>order = 1, opcode = ''BREAK'', args = []\<rparr>], counter = 1\<rparr>"
    and b: "header_found \<lparr>header_found = True,
        instructions_xml = [\<lparr>order = 1, opcode = ''BREAK'', args = []\<rparr>], counter = 1\<rparr>"
    and c: "content '' .IPPcode24 # again'' = ''.IPPcode24''"
    by code_simp+
  from second_header_is_instruction [OF a b c, of "[''BREAK'']"] show ?thesis by simp
qed

end
